theory Spec2Isabelle
  imports Complex_Main "HOL-Library.Sublist" "HOL-Library.Multiset" "HOL-Library.Code_Target_Nat"
begin

section \<open>Strings of the runtime\<close>

text \<open>
  A string of the runtime is the list of its UTF-16 code units, each a natural number;
  \<open>js\<close> turns a literal of the theory into such a string. White space is the set of code
  units that the runtime's \<open>trim\<close> and its regular expression class \<open>\s\<close> recognise:
  tab, line feed, vertical tab, form feed, carriage return, space, no-break space, U+1680,
  U+2000 to U+200A, the line and paragraph separators, U+202F, U+205F, U+3000 and U+FEFF.
  Lower-casing is the runtime's, a parameter of the model (see \<open>js_env\<close> below).
\<close>

type_synonym jsstring = "nat list"

definition js :: "string \<Rightarrow> jsstring" where
  "js s = map of_char s"

definition dquote :: nat where
  "dquote = 34"

definition comma :: nat where
  "comma = 44"

definition blank :: nat where
  "blank = 32"

definition LF :: nat where
  "LF = 10"

definition CR :: nat where
  "CR = 13"

definition lt_sign :: nat where
  "lt_sign = 60"

definition gt_sign :: nat where
  "gt_sign = 62"

definition is_space :: "nat \<Rightarrow> bool" where
  "is_space c = (c = 9 \<or> c = 10 \<or> c = 11 \<or> c = 12 \<or> c = 13 \<or> c = 32 \<or> c = 160
                 \<or> c = 5760 \<or> (8192 \<le> c \<and> c \<le> 8202) \<or> c = 8232 \<or> c = 8233
                 \<or> c = 8239 \<or> c = 8287 \<or> c = 12288 \<or> c = 65279)"

definition trim :: "jsstring \<Rightarrow> jsstring" where
  "trim s = rev (dropWhile is_space (rev (dropWhile is_space s)))"

text \<open>
  \<open>s.replace(/\s+/g, ' ')\<close>: every maximal run of white space becomes one blank. The flag
  says that the code unit before was white space, so that the run is already replaced.
\<close>

fun collapse_loop :: "jsstring \<Rightarrow> bool \<Rightarrow> jsstring" where
  "collapse_loop [] in_run = []"
| "collapse_loop (c # cs) in_run =
     (if is_space c then (if in_run then collapse_loop cs True else blank # collapse_loop cs True)
      else c # collapse_loop cs False)"

definition collapse_ws :: "jsstring \<Rightarrow> jsstring" where
  "collapse_ws s = collapse_loop s False"

text \<open>\<open>s.split(/\s+/)\<close>: the pieces between maximal runs of white space.\<close>

fun split_ws_loop :: "jsstring \<Rightarrow> jsstring \<Rightarrow> bool \<Rightarrow> jsstring list" where
  "split_ws_loop [] cur in_run = [cur]"
| "split_ws_loop (c # cs) cur in_run =
     (if is_space c then (if in_run then split_ws_loop cs cur True else cur # split_ws_loop cs [] True)
      else split_ws_loop cs (cur @ [c]) False)"

definition split_ws :: "jsstring \<Rightarrow> jsstring list" where
  "split_ws s = split_ws_loop s [] False"

text \<open>\<open>s.split(',')\<close>.\<close>

fun split_comma_loop :: "jsstring \<Rightarrow> jsstring \<Rightarrow> jsstring list" where
  "split_comma_loop [] cur = [cur]"
| "split_comma_loop (c # cs) cur =
     (if c = comma then cur # split_comma_loop cs []
      else split_comma_loop cs (cur @ [c]))"

definition split_comma :: "jsstring \<Rightarrow> jsstring list" where
  "split_comma s = split_comma_loop s []"

text \<open>\<open>s.includes(t)\<close>, \<open>s.startsWith(t)\<close>, \<open>s.endsWith(t)\<close>.\<close>

definition startsWith :: "jsstring \<Rightarrow> jsstring \<Rightarrow> bool" where
  "startsWith s t = prefix t s"

definition endsWith :: "jsstring \<Rightarrow> jsstring \<Rightarrow> bool" where
  "endsWith s t = suffix t s"

fun includes_str :: "jsstring \<Rightarrow> jsstring \<Rightarrow> bool" where
  "includes_str [] t = (t = [])"
| "includes_str (c # cs) t = (prefix t (c # cs) \<or> includes_str cs t)"

section \<open>Values of the runtime\<close>

datatype error = TypeError | SyntaxError

text \<open>What \<open>JSON.parse\<close> can return, and \<open>undefined\<close> for a missing property.\<close>

datatype jsval =
    JUndefined
  | JNull
  | JBool bool
  | JNum real
  | JStr jsstring
  | JArr "jsval list"
  | JObj "(jsstring \<times> jsval) list"

fun truthy :: "jsval \<Rightarrow> bool" where
  "truthy JUndefined = False"
| "truthy JNull = False"
| "truthy (JBool b) = b"
| "truthy (JNum r) = (r \<noteq> 0)"
| "truthy (JStr s) = (s \<noteq> [])"
| "truthy (JArr _) = True"
| "truthy (JObj _) = True"

text \<open>Reading a named property of a parsed value: only objects carry one.\<close>

fun get_prop :: "jsval \<Rightarrow> jsstring \<Rightarrow> jsval" where
  "get_prop (JObj kvs) k = (case map_of kvs k of None \<Rightarrow> JUndefined | Some v \<Rightarrow> v)"
| "get_prop _ k = JUndefined"

text \<open>
  The built-in functions of the runtime that the parser and the engine call. They are not
  code of the repository, so they are parameters of the model:
  \<^item> \<open>JSON_parse\<close> returns \<open>None\<close> where \<open>JSON.parse\<close> throws;
  \<^item> \<open>to_Number\<close>, \<open>parseFloat\<close> and \<open>parseInt10\<close> return \<open>Inl\<close> where the
    conversion of the argument throws, and \<open>Inr None\<close> for \<open>NaN\<close>;
  \<^item> \<open>Date_getTime s\<close> is \<open>new Date(s).getTime()\<close>, \<open>None\<close> for an invalid date;
  \<^item> \<open>localeCompare a b\<close> is \<open>a.localeCompare(b)\<close>;
  \<^item> \<open>toLowerCase s\<close> is \<open>s.toLowerCase()\<close>;
  \<^item> \<open>nearest_double x\<close> is the double that the runtime's arithmetic rounds the exact
    result \<open>x\<close> of a division or a product to.
\<close>

record js_env =
  JSON_parse :: "jsstring \<Rightarrow> jsval option"
  to_Number :: "jsval \<Rightarrow> error + real option"
  parseFloat :: "jsval \<Rightarrow> error + real option"
  parseInt10 :: "jsval \<Rightarrow> error + int option"
  Date_getTime :: "jsstring \<Rightarrow> real option"
  localeCompare :: "jsstring \<Rightarrow> jsstring \<Rightarrow> int"
  toLowerCase :: "jsstring \<Rightarrow> jsstring"
  nearest_double :: "real \<Rightarrow> real"

section \<open>The data model\<close>

record Price =
  amount :: real
  currency :: jsval

record ProductImage =
  image_id :: jsval
  url :: jsval
  altText :: jsval
  width :: jsval
  height :: jsval

record Product =
  product_id :: jsstring
  title :: jsstring
  handle :: jsstring
  vendor :: jsstring
  productType :: jsstring
  description :: jsstring
  bodyHtml :: jsstring
  tags :: "jsstring list"
  status :: jsstring
  createdAt :: jsstring
  updatedAt :: jsstring
  price :: Price
  inventory :: "int option"
  images :: "ProductImage list"
  rating :: "real option"
  reviewCount :: "int option"

record ParseStats =
  totalRows :: nat
  parsedProducts :: nat
  skippedRows :: nat
  errors :: nat

record ParseResult =
  products :: "Product list"
  stats :: ParseStats

section \<open>The record parser\<close>

definition safeJsonParse :: "js_env \<Rightarrow> jsstring option \<Rightarrow> jsval" where
  "safeJsonParse env json =
     (case json of
        None \<Rightarrow> JNull
      | Some s \<Rightarrow> if s = [] then JNull
                  else (case JSON_parse env s of None \<Rightarrow> JNull | Some v \<Rightarrow> v))"

text \<open>\<open>x || d\<close> on values.\<close>

definition or_else :: "jsval \<Rightarrow> jsval \<Rightarrow> jsval" where
  "or_else x d = (if truthy x then x else d)"

text \<open>\<open>s || d\<close> on a column that may be missing.\<close>

definition str_or :: "jsstring option \<Rightarrow> jsstring \<Rightarrow> jsstring" where
  "str_or x d = (case x of None \<Rightarrow> d | Some s \<Rightarrow> if s = [] then d else s)"

definition extractPrice :: "js_env \<Rightarrow> jsstring option \<Rightarrow> error + Price" where
  "extractPrice env priceJson =
     (let priceRange = safeJsonParse env priceJson;
          mvp = get_prop priceRange (js ''min_variant_price'')
      in if truthy mvp then
           (case to_Number env (get_prop mvp (js ''amount'')) of
              Inl e \<Rightarrow> Inl e
            | Inr n \<Rightarrow>
                Inr \<lparr> amount = (case n of None \<Rightarrow> 0 | Some r \<Rightarrow> r),
                      currency = or_else (get_prop mvp (js ''currency_code'')) (JStr (js ''GBP'')) \<rparr>)
         else Inr \<lparr> amount = 0, currency = JStr (js ''GBP'') \<rparr>)"

definition extractImages :: "js_env \<Rightarrow> jsstring option \<Rightarrow> jsstring option \<Rightarrow> ProductImage list" where
  "extractImages env imagesJson featuredJson =
     (if str_or featuredJson [] \<noteq> [] then
        (let featured = safeJsonParse env featuredJson
         in if truthy (get_prop featured (js ''url'')) then
              [\<lparr> image_id = or_else (get_prop featured (js ''id'')) (JStr (js ''featured'')),
                 url = get_prop featured (js ''url''),
                 altText = get_prop featured (js ''alt_text''),
                 width = get_prop featured (js ''width''),
                 height = get_prop featured (js ''height'') \<rparr>]
            else [])
      else [])"

definition extractRating :: "js_env \<Rightarrow> jsstring option \<Rightarrow> error + (real option \<times> int option)" where
  "extractRating env metafieldsJson =
     (if str_or metafieldsJson [] = [] then Inr (None, None)
      else
        (let metafields = safeJsonParse env metafieldsJson
         in if \<not> truthy metafields then Inr (None, None)
            else
              (case parseFloat env
                      (or_else (get_prop (get_prop metafields (js ''yotpo_reviews_average''))
                                         (js ''value''))
                               (JStr (js ''0''))) of
                 Inl e \<Rightarrow> Inl e
               | Inr rt \<Rightarrow>
                   (case parseInt10 env
                           (or_else (get_prop (get_prop metafields (js ''yotpo_reviews_count''))
                                              (js ''value''))
                                    (JStr (js ''0''))) of
                      Inl e \<Rightarrow> Inl e
                    | Inr rc \<Rightarrow>
                        Inr (case rt of
                               None \<Rightarrow> None
                             | Some r \<Rightarrow> if r \<noteq> 0 \<and> r > 0 then Some r else None,
                             case rc of
                               None \<Rightarrow> None
                             | Some c \<Rightarrow> if c \<noteq> 0 \<and> c > 0 then Some c else None)))))"

definition parseTags :: "jsstring \<Rightarrow> jsstring list" where
  "parseTags tagsString =
     (if tagsString = [] then []
      else filter (\<lambda>t. length t > 0) (map trim (split_comma tagsString)))"

text \<open>
  \<open>parseProduct\<close> catches whatever its body throws and returns \<open>null\<close>, here \<open>None\<close>.
  The row is a map from column name to cell.
\<close>

definition parseProduct :: "js_env \<Rightarrow> (jsstring \<rightharpoonup> jsstring) \<Rightarrow> Product option" where
  "parseProduct env raw =
     (case extractPrice env (raw (js ''PRICE_RANGE_V2'')) of
        Inl e \<Rightarrow> None
      | Inr pr \<Rightarrow>
          (let imgs = extractImages env (raw (js ''IMAGES'')) (raw (js ''FEATURED_IMAGE''))
           in case extractRating env (raw (js ''METAFIELDS'')) of
                Inl e \<Rightarrow> None
              | Inr (rt, rc) \<Rightarrow>
                  (let tgs = parseTags (str_or (raw (js ''TAGS'')) [])
                   in case parseInt10 env (JStr (str_or (raw (js ''TOTAL_INVENTORY'')) (js ''0''))) of
                        Inl e \<Rightarrow> None
                      | Inr stock \<Rightarrow>
                          Some \<lparr> product_id = str_or (raw (js ''ID'')) [],
                                 title = str_or (raw (js ''TITLE'')) (js ''Untitled Product''),
                                 handle = str_or (raw (js ''HANDLE'')) [],
                                 vendor = str_or (raw (js ''VENDOR'')) (js ''Unknown''),
                                 productType = str_or (raw (js ''PRODUCT_TYPE'')) [],
                                 description = str_or (raw (js ''DESCRIPTION'')) [],
                                 bodyHtml = str_or (raw (js ''BODY_HTML'')) [],
                                 tags = tgs,
                                 status = str_or (raw (js ''STATUS'')) (js ''ACTIVE''),
                                 createdAt = str_or (raw (js ''CREATED_AT'')) [],
                                 updatedAt = str_or (raw (js ''UPDATED_AT'')) [],
                                 price = pr,
                                 inventory = stock,
                                 images = imgs,
                                 rating = rt,
                                 reviewCount = rc \<rparr>)))"

text \<open>
  The state of the scan of one line is the field being read, the quote flag and the fields
  read so far; \<open>i += 2\<close> on a doubled quote inside quotes is the two-unit pattern.
\<close>

fun parseCSVLine_loop :: "jsstring \<Rightarrow> jsstring \<Rightarrow> bool \<Rightarrow> jsstring list \<Rightarrow> jsstring list" where
  "parseCSVLine_loop [] current inQuotes result = result @ [trim current]"
| "parseCSVLine_loop [c] current inQuotes result =
     (if c = dquote then parseCSVLine_loop [] current (\<not> inQuotes) result
      else if c = comma \<and> \<not> inQuotes then parseCSVLine_loop [] [] inQuotes (result @ [trim current])
      else parseCSVLine_loop [] (current @ [c]) inQuotes result)"
| "parseCSVLine_loop (c # c' # rest) current inQuotes result =
     (if c = dquote then
        (if inQuotes \<and> c' = dquote then parseCSVLine_loop rest (current @ [dquote]) inQuotes result
         else parseCSVLine_loop (c' # rest) current (\<not> inQuotes) result)
      else if c = comma \<and> \<not> inQuotes then
        parseCSVLine_loop (c' # rest) [] inQuotes (result @ [trim current])
      else parseCSVLine_loop (c' # rest) (current @ [c]) inQuotes result)"

definition parseCSVLine :: "jsstring \<Rightarrow> jsstring list" where
  "parseCSVLine line = parseCSVLine_loop line [] False []"

text \<open>
  The first loop of \<open>parseCSV\<close>: the text is cut at line ends outside quotes, and a line is
  kept when it is not blank. A doubled quote appends two quotes and then the unit itself,
  as the source does.
\<close>

definition push_line :: "jsstring list \<Rightarrow> jsstring \<Rightarrow> jsstring list" where
  "push_line lines currentLine = (if trim currentLine \<noteq> [] then lines @ [currentLine] else lines)"

fun split_loop :: "jsstring \<Rightarrow> jsstring \<Rightarrow> bool \<Rightarrow> jsstring list \<Rightarrow> jsstring list" where
  "split_loop [] currentLine inQuotes lines = push_line lines currentLine"
| "split_loop [c] currentLine inQuotes lines =
     (if c = dquote then split_loop [] (currentLine @ [c]) (\<not> inQuotes) lines
      else if (c = LF \<or> c = CR) \<and> \<not> inQuotes then split_loop [] [] inQuotes (push_line lines currentLine)
      else split_loop [] (currentLine @ [c]) inQuotes lines)"
| "split_loop (c # c' # rest) currentLine inQuotes lines =
     (if c = dquote then
        (if c' = dquote then split_loop rest (currentLine @ [dquote, dquote] @ [c]) inQuotes lines
         else split_loop (c' # rest) (currentLine @ [c]) (\<not> inQuotes) lines)
      else if (c = LF \<or> c = CR) \<and> \<not> inQuotes then
        (if c = CR \<and> c' = LF then split_loop rest [] inQuotes (push_line lines currentLine)
         else split_loop (c' # rest) [] inQuotes (push_line lines currentLine))
      else split_loop (c' # rest) (currentLine @ [c]) inQuotes lines)"

definition splitLines :: "jsstring \<Rightarrow> jsstring list" where
  "splitLines csvText = split_loop csvText [] False []"

text \<open>
  \<open>headers.forEach((header, index) => rawData[header] = values[index] || '')\<close>: a later
  column of the same name overwrites an earlier one, a missing cell is the empty string.
\<close>

fun mk_rawData :: "jsstring list \<Rightarrow> jsstring list \<Rightarrow> (jsstring \<rightharpoonup> jsstring) \<Rightarrow> (jsstring \<rightharpoonup> jsstring)" where
  "mk_rawData [] values rawData = rawData"
| "mk_rawData (header # headers) values rawData =
     mk_rawData headers (tl values)
       (rawData(header \<mapsto> (case values of [] \<Rightarrow> [] | v # _ \<Rightarrow> v)))"

text \<open>
  The body of the \<open>try\<close> of one row. Nothing it calls throws (\<open>parseProduct\<close> catches its
  own failures), so it is always \<open>Inr\<close>; the \<open>catch\<close> of the loop is the \<open>Inl\<close> branch of
  \<open>row_step\<close>.
\<close>

definition row_try :: "js_env \<Rightarrow> jsstring list \<Rightarrow> jsstring \<Rightarrow> error + Product option" where
  "row_try env headers line =
     (let values = parseCSVLine line;
          rawData = mk_rawData headers values Map.empty
      in Inr (parseProduct env rawData))"

text \<open>
  The observer \<open>onProgress\<close> is any function of the caller's. What the parser can see of it
  is whether a call returns or throws; that may depend on every call made so far, so an
  observer is a function from the calls made so far, the current one last, to the error the
  current call throws (\<open>None\<close> when it returns). A call is the percentage and the
  statistics passed.
\<close>

type_synonym progress_call = "nat \<times> ParseStats"

type_synonym observer = "progress_call list \<Rightarrow> error option"

text \<open>
  The state of the row loop: the records kept, the two counters, the calls made to the
  observer so far, and the error of an observer call that threw. The calls of the observer
  are outside the \<open>try\<close> of the row, so such an error ends the loop and leaves
  \<open>parseCSV\<close>. The elapsed time of the statistics and the module's cache of the last
  result are not modelled.
\<close>

record loop_state =
  ls_products :: "Product list"
  ls_skippedRows :: nat
  ls_errors :: nat
  ls_calls :: "progress_call list"
  ls_raised :: "error option"

text \<open>
  \<open>Math.round((i / totalLines) * 100)\<close>: the quotient and the product are each rounded to
  a double by the runtime; \<open>Math.round\<close> of a double is exact, halves going up.
\<close>

definition percent_of :: "js_env \<Rightarrow> nat \<Rightarrow> nat \<Rightarrow> nat" where
  "percent_of env i totalLines =
     nat \<lfloor>nearest_double env (nearest_double env (real i / real totalLines) * 100) + 1 / 2\<rfloor>"

definition row_step :: "js_env \<Rightarrow> jsstring list \<Rightarrow> jsstring \<Rightarrow> loop_state \<Rightarrow> loop_state" where
  "row_step env headers line st =
     (case row_try env headers line of
        Inl e \<Rightarrow> st\<lparr> ls_errors := ls_errors st + 1, ls_skippedRows := ls_skippedRows st + 1 \<rparr>
      | Inr None \<Rightarrow> st\<lparr> ls_skippedRows := ls_skippedRows st + 1 \<rparr>
      | Inr (Some p) \<Rightarrow>
          if status p = js ''ACTIVE'' \<and> amount (price p) > 0
          then st\<lparr> ls_products := ls_products st @ [p] \<rparr>
          else st\<lparr> ls_skippedRows := ls_skippedRows st + 1 \<rparr>)"

text \<open>One call of the observer: it is recorded, and its error, if any, is kept.\<close>

definition call_observer :: "observer \<Rightarrow> progress_call \<Rightarrow> loop_state \<Rightarrow> loop_state" where
  "call_observer f c st = st\<lparr> ls_calls := ls_calls st @ [c], ls_raised := f (ls_calls st @ [c]) \<rparr>"

definition report :: "js_env \<Rightarrow> observer option \<Rightarrow> nat \<Rightarrow> nat \<Rightarrow> loop_state \<Rightarrow> loop_state" where
  "report env onProgress i totalLines st =
     (case onProgress of
        None \<Rightarrow> st
      | Some f \<Rightarrow>
          if i mod 1000 = 0
          then call_observer f
                 (percent_of env i totalLines,
                  \<lparr> totalRows = i, parsedProducts = length (ls_products st),
                    skippedRows = ls_skippedRows st, errors = ls_errors st \<rparr>) st
          else st)"

text \<open>
  The row loop, from index \<open>i\<close> over the lines that remain; a blank line \<open>continue\<close>s, and
  an observer call that throws ends the loop.
\<close>

fun parse_rows :: "js_env \<Rightarrow> observer option \<Rightarrow> jsstring list \<Rightarrow> nat \<Rightarrow> nat \<Rightarrow> jsstring list \<Rightarrow> loop_state \<Rightarrow> loop_state" where
  "parse_rows env onProgress headers totalLines i [] st = st"
| "parse_rows env onProgress headers totalLines i (l # ls) st =
     (let line = trim l
      in if line = [] then
           parse_rows env onProgress headers totalLines (Suc i) ls
             (st\<lparr> ls_skippedRows := ls_skippedRows st + 1 \<rparr>)
         else
           (let st' = report env onProgress i totalLines (row_step env headers line st)
            in if ls_raised st' \<noteq> None then st'
               else parse_rows env onProgress headers totalLines (Suc i) ls st'))"

text \<open>
  \<open>parseCSV\<close> returns the calls it made to the observer (none when \<open>onProgress\<close> is absent)
  and its outcome: \<open>Inl\<close> is an exception that reaches the caller, \<open>Inr\<close> is the value
  returned. With fewer than 2 lines it returns before any call.
\<close>

definition final_stats :: "nat \<Rightarrow> loop_state \<Rightarrow> ParseStats" where
  "final_stats totalLines st =
     \<lparr> totalRows = totalLines, parsedProducts = length (ls_products st),
       skippedRows = ls_skippedRows st, errors = ls_errors st \<rparr>"

definition parseCSV :: "js_env \<Rightarrow> observer option \<Rightarrow> jsstring \<Rightarrow> progress_call list \<times> (error + ParseResult)" where
  "parseCSV env onProgress csvText =
     (let lines = splitLines csvText
      in if length lines < 2 then
           ([], Inr \<lparr> products = [],
                      stats = \<lparr> totalRows = 0, parsedProducts = 0, skippedRows = 0, errors = 0 \<rparr> \<rparr>)
         else
           (let headers = parseCSVLine (hd lines);
                totalLines = length lines - 1;
                st = parse_rows env onProgress headers totalLines 1 (tl lines)
                       \<lparr> ls_products = [], ls_skippedRows = 0, ls_errors = 0, ls_calls = [],
                         ls_raised = None \<rparr>
            in case ls_raised st of
                 Some e \<Rightarrow> (ls_calls st, Inl e)
               | None \<Rightarrow>
                   (let st' = (case onProgress of
                                 None \<Rightarrow> st
                               | Some f \<Rightarrow> call_observer f (100, final_stats totalLines st) st)
                    in (ls_calls st',
                        case ls_raised st' of
                          Some e \<Rightarrow> Inl e
                        | None \<Rightarrow> Inr \<lparr> products = ls_products st,
                                         stats = final_stats totalLines st \<rparr>))))"

text \<open>
  Three notions for the statements about \<open>parseCSV\<close>: the value returned for fewer than 2
  lines; the state in which the row loop of \<open>parseCSV\<close> ends; and the invariant that an
  error in the state of the loop is the one that the last call of the observer threw.
\<close>

definition empty_result :: ParseResult where
  "empty_result =
     \<lparr> products = [], stats = \<lparr> totalRows = 0, parsedProducts = 0, skippedRows = 0, errors = 0 \<rparr> \<rparr>"

definition rows_state :: "js_env \<Rightarrow> observer option \<Rightarrow> jsstring \<Rightarrow> loop_state" where
  "rows_state env obs t =
     parse_rows env obs (parseCSVLine (hd (splitLines t))) (length (splitLines t) - 1) 1
       (tl (splitLines t))
       \<lparr> ls_products = [], ls_skippedRows = 0, ls_errors = 0, ls_calls = [], ls_raised = None \<rparr>"

definition raised_by :: "observer option \<Rightarrow> loop_state \<Rightarrow> bool" where
  "raised_by obs st =
     (ls_raised st = None
      \<or> (\<exists>f. obs = Some f \<and> ls_calls st \<noteq> [] \<and> f (ls_calls st) = ls_raised st))"

section \<open>The search engine\<close>

subsection \<open>Normalizer and tokenizer\<close>

definition normalize_str :: "js_env \<Rightarrow> jsstring option \<Rightarrow> jsstring" where
  "normalize_str env text =
     (case text of
        None \<Rightarrow> []
      | Some s \<Rightarrow> if s = [] then [] else collapse_ws (trim (toLowerCase env s)))"

text \<open>\<open>s.replace(/[^a-z0-9]/g, '')\<close>.\<close>

definition is_lower_alnum :: "nat \<Rightarrow> bool" where
  "is_lower_alnum c = ((97 \<le> c \<and> c \<le> 122) \<or> (48 \<le> c \<and> c \<le> 57))"

definition strip_non_alnum :: "jsstring \<Rightarrow> jsstring" where
  "strip_non_alnum s = filter is_lower_alnum s"

definition normalizeForFuzzy :: "js_env \<Rightarrow> jsstring option \<Rightarrow> jsstring" where
  "normalizeForFuzzy env text = strip_non_alnum (normalize_str env text)"

text \<open>
  The loop of \<open>isSubsequence\<close> walks the haystack and advances in the needle on every
  equal code unit; it stops when either is used up, and succeeds when the needle is.
\<close>

fun isSubsequence_loop :: "jsstring \<Rightarrow> jsstring \<Rightarrow> bool" where
  "isSubsequence_loop [] haystack = True"
| "isSubsequence_loop (n # needle) [] = False"
| "isSubsequence_loop (n # needle) (h # haystack) =
     (if n = h then isSubsequence_loop needle haystack
      else isSubsequence_loop (n # needle) haystack)"

definition isSubsequence :: "jsstring \<Rightarrow> jsstring \<Rightarrow> bool" where
  "isSubsequence needle haystack = (if needle = [] then False else isSubsequence_loop needle haystack)"

definition tokenize :: "js_env \<Rightarrow> jsstring \<Rightarrow> jsstring list" where
  "tokenize env query = filter (\<lambda>t. length t > 0) (split_ws (normalize_str env (Some query)))"

subsection \<open>Field scorer\<close>

fun scoreField_loop :: "jsstring list \<Rightarrow> jsstring \<Rightarrow> jsstring \<Rightarrow> real \<Rightarrow> real \<Rightarrow> real" where
  "scoreField_loop [] normalized normalizedFuzzy weight score = score"
| "scoreField_loop (token # tokens) normalized normalizedFuzzy weight score =
     (let fuzzyToken = (if length token \<ge> 3 then strip_non_alnum token else [])
      in if normalized = token then
           scoreField_loop tokens normalized normalizedFuzzy weight (score + 10 * weight)
         else if startsWith normalized token then
           scoreField_loop tokens normalized normalizedFuzzy weight (score + 5 * weight)
         else if includes_str normalized ([blank] @ token @ [blank])
                 \<or> startsWith normalized (token @ [blank])
                 \<or> endsWith normalized ([blank] @ token) then
           scoreField_loop tokens normalized normalizedFuzzy weight (score + 4 * weight)
         else if includes_str normalized token then
           scoreField_loop tokens normalized normalizedFuzzy weight (score + 2 * weight)
         else if normalizedFuzzy \<noteq> [] \<and> fuzzyToken \<noteq> [] \<and> isSubsequence fuzzyToken normalizedFuzzy then
           scoreField_loop tokens normalized normalizedFuzzy weight (score + 1 * weight)
         else scoreField_loop tokens normalized normalizedFuzzy weight score)"

definition scoreField :: "js_env \<Rightarrow> jsstring list \<Rightarrow> jsstring option \<Rightarrow> real \<Rightarrow> real" where
  "scoreField env tokens field weight =
     (if field = None \<or> field = Some [] \<or> length tokens = 0 then 0
      else
        (let normalized = normalize_str env field;
             normalizedFuzzy = (if length normalized \<le> 120 then normalizeForFuzzy env field else [])
         in scoreField_loop tokens normalized normalizedFuzzy weight 0))"

subsection \<open>Relevance ranker\<close>

text \<open>
  \<open>html.replace(/<[^>]*>/g, ' ')\<close>: a \<open><\<close> with a \<open>>\<close> somewhere after it opens a tag
  that runs to the first such \<open>>\<close>; the tag becomes one blank.
\<close>

function replace_tags :: "jsstring \<Rightarrow> jsstring" where
  "replace_tags [] = []"
| "replace_tags (c # cs) =
     (if c = lt_sign \<and> gt_sign \<in> set cs
      then blank # replace_tags (tl (dropWhile (\<lambda>x. x \<noteq> gt_sign) cs))
      else c # replace_tags cs)"
  by pat_completeness auto
termination
proof (relation "measure length")
  show "wf (measure length)" by simp
next
  fix c :: nat and cs :: jsstring
  have "length (tl (dropWhile (\<lambda>x. x \<noteq> gt_sign) cs)) \<le> length cs"
    using length_dropWhile_le [of "\<lambda>x. x \<noteq> gt_sign" cs] by simp
  then show "(tl (dropWhile (\<lambda>x. x \<noteq> gt_sign) cs), c # cs) \<in> measure length" by simp
next
  fix c :: nat and cs :: jsstring
  show "(cs, c # cs) \<in> measure length" by simp
qed

definition stripHtml :: "jsstring \<Rightarrow> jsstring" where
  "stripHtml html = trim (collapse_ws (replace_tags html))"

text \<open>\<open>product.description || product.bodyHtml || ''\<close> and \<open>product.tags.join(' ')\<close>.\<close>

definition description_or_body :: "'a Product_scheme \<Rightarrow> jsstring" where
  "description_or_body p = (if description p \<noteq> [] then description p else bodyHtml p)"

fun join_space :: "jsstring list \<Rightarrow> jsstring" where
  "join_space [] = []"
| "join_space [t] = t"
| "join_space (t # ts) = t @ [blank] @ join_space ts"

definition MINIMUM_SCORE :: real where
  "MINIMUM_SCORE = 1 / 10"

definition calculateScore :: "js_env \<Rightarrow> 'a Product_scheme \<Rightarrow> jsstring list \<Rightarrow> real" where
  "calculateScore env p tokens =
     (if length tokens = 0 then 0
      else 0 + scoreField env tokens (Some (title p)) 3
             + scoreField env tokens (Some (vendor p)) 2
             + scoreField env tokens (Some (stripHtml (description_or_body p))) 1
             + scoreField env tokens (Some (join_space (tags p))) (1 / 2))"

definition getMatches :: "js_env \<Rightarrow> 'a Product_scheme \<Rightarrow> jsstring list \<Rightarrow> jsstring list" where
  "getMatches env p tokens =
     (if list_ex (\<lambda>t. includes_str (normalize_str env (Some (title p))) t) tokens
      then [js ''title''] else [])
     @ (if list_ex (\<lambda>t. includes_str (normalize_str env (Some (vendor p))) t) tokens
        then [js ''vendor''] else [])
     @ (if list_ex (\<lambda>t. includes_str (normalize_str env (Some (stripHtml (description_or_body p)))) t)
             tokens
        then [js ''description''] else [])
     @ (if list_ex (\<lambda>t. list_ex (\<lambda>tag. includes_str (normalize_str env (Some tag)) t) (tags p)) tokens
        then [js ''tags''] else [])"

subsection \<open>Filter engine\<close>

text \<open>A bound of the price interval is any number of the runtime, \<open>Infinity\<close> included.\<close>

datatype jsnum = Num real | PosInfinity | NegInfinity | NaN

text \<open>\<open>a >= m\<close> and \<open>a <= m\<close> for a finite \<open>a\<close>.\<close>

fun num_ge :: "real \<Rightarrow> jsnum \<Rightarrow> bool" where
  "num_ge a (Num m) = (a \<ge> m)"
| "num_ge a PosInfinity = False"
| "num_ge a NegInfinity = True"
| "num_ge a NaN = False"

fun num_le :: "real \<Rightarrow> jsnum \<Rightarrow> bool" where
  "num_le a (Num m) = (a \<le> m)"
| "num_le a PosInfinity = True"
| "num_le a NegInfinity = False"
| "num_le a NaN = False"

record PriceRange =
  min_price :: jsnum
  max_price :: jsnum

record SearchFilters =
  vendors :: "jsstring list option"
  priceRange :: "PriceRange option"
  inStock :: "bool option"

definition applyFilters :: "Product list \<Rightarrow> SearchFilters option \<Rightarrow> Product list" where
  "applyFilters ps filters =
     (case filters of
        None \<Rightarrow> ps
      | Some f \<Rightarrow>
          (let filtered1 = (case vendors f of
                              None \<Rightarrow> ps
                            | Some vs \<Rightarrow> if length vs > 0 then filter (\<lambda>p. vendor p \<in> set vs) ps else ps);
               filtered2 = (case priceRange f of
                              None \<Rightarrow> filtered1
                            | Some r \<Rightarrow> filter (\<lambda>p. num_ge (amount (price p)) (min_price r)
                                                    \<and> num_le (amount (price p)) (max_price r)) filtered1);
               filtered3 = (if inStock f = Some True
                            then filter (\<lambda>p. case inventory p of None \<Rightarrow> False | Some n \<Rightarrow> n > 0) filtered2
                            else filtered2)
           in filtered3))"

subsection \<open>Sort engine\<close>

record SearchResult = Product +
  relevanceScore :: real
  matchedFields :: "jsstring list"

definition mk_result :: "Product \<Rightarrow> real \<Rightarrow> jsstring list \<Rightarrow> SearchResult" where
  "mk_result p score matched = Product.extend p (SearchResult.fields score matched)"

text \<open>
  \<open>Array.prototype.sort(comparefn)\<close> belongs to the runtime. It is stable, and it reads a
  \<open>NaN\<close> from the comparator (here \<open>None\<close>) as \<open>+0\<close>. It is modelled by insertion from
  the right: an element goes in front of the first one it does not compare greater than.
  For a comparator that is a total preorder every stable sort gives this result. For one
  that is not, as a comparator that returns \<open>NaN\<close> for some pairs only, the language
  leaves the order to the implementation, and the model is one such implementation.
\<close>

definition sort_le :: "('a \<Rightarrow> 'a \<Rightarrow> real option) \<Rightarrow> 'a \<Rightarrow> 'a \<Rightarrow> bool" where
  "sort_le comparefn a b = (case comparefn a b of None \<Rightarrow> True | Some v \<Rightarrow> v \<le> 0)"

fun js_insert :: "('a \<Rightarrow> 'a \<Rightarrow> real option) \<Rightarrow> 'a \<Rightarrow> 'a list \<Rightarrow> 'a list" where
  "js_insert comparefn x [] = [x]"
| "js_insert comparefn x (y # ys) =
     (if sort_le comparefn x y then x # y # ys else y # js_insert comparefn x ys)"

definition js_sort :: "('a \<Rightarrow> 'a \<Rightarrow> real option) \<Rightarrow> 'a list \<Rightarrow> 'a list" where
  "js_sort comparefn xs = foldr (js_insert comparefn) xs []"

text \<open>The comparators of \<open>sortResults\<close>; a difference with an invalid date is \<open>NaN\<close>.\<close>

definition cmp_recent_desc :: "js_env \<Rightarrow> 'a Product_scheme \<Rightarrow> 'a Product_scheme \<Rightarrow> real option" where
  "cmp_recent_desc env a b =
     (case (Date_getTime env (createdAt b), Date_getTime env (createdAt a)) of
        (Some tb, Some ta) \<Rightarrow> Some (tb - ta)
      | _ \<Rightarrow> None)"

definition cmp_price_asc :: "'a Product_scheme \<Rightarrow> 'a Product_scheme \<Rightarrow> real option" where
  "cmp_price_asc a b = Some (amount (price a) - amount (price b))"

definition cmp_price_desc :: "'a Product_scheme \<Rightarrow> 'a Product_scheme \<Rightarrow> real option" where
  "cmp_price_desc a b = Some (amount (price b) - amount (price a))"

definition rating_or_0 :: "'a Product_scheme \<Rightarrow> real" where
  "rating_or_0 a = (case rating a of None \<Rightarrow> 0 | Some r \<Rightarrow> r)"

definition cmp_rating_desc :: "'a Product_scheme \<Rightarrow> 'a Product_scheme \<Rightarrow> real option" where
  "cmp_rating_desc a b = Some (rating_or_0 b - rating_or_0 a)"

definition cmp_vendor_asc :: "js_env \<Rightarrow> 'a Product_scheme \<Rightarrow> 'a Product_scheme \<Rightarrow> real option" where
  "cmp_vendor_asc env a b = Some (real_of_int (localeCompare env (vendor a) (vendor b)))"

definition cmp_vendor_desc :: "js_env \<Rightarrow> 'a Product_scheme \<Rightarrow> 'a Product_scheme \<Rightarrow> real option" where
  "cmp_vendor_desc env a b = Some (real_of_int (localeCompare env (vendor b) (vendor a)))"

text \<open>The sort name is absent (\<open>None\<close>, the default \<open>recent-desc\<close> applies) or any string.\<close>

definition sortResults :: "js_env \<Rightarrow> SearchResult list \<Rightarrow> jsstring option \<Rightarrow> SearchResult list" where
  "sortResults env results sortBy =
     (let name = (case sortBy of None \<Rightarrow> js ''recent-desc'' | Some s \<Rightarrow> s)
      in if name = js ''recent-desc'' then js_sort (cmp_recent_desc env) results
         else if name = js ''price-asc'' then js_sort cmp_price_asc results
         else if name = js ''price-desc'' then js_sort cmp_price_desc results
         else if name = js ''rating-desc'' then js_sort cmp_rating_desc results
         else if name = js ''vendor-asc'' then js_sort (cmp_vendor_asc env) results
         else if name = js ''vendor-desc'' then js_sort (cmp_vendor_desc env) results
         else js_sort (cmp_recent_desc env) results)"

subsection \<open>Top-level search\<close>

record SearchOptions =
  query :: jsstring
  filters :: "SearchFilters option"
  sortBy :: "jsstring option"
  limit :: "int option"

text \<open>
  \<open>typeof limit === 'number' ? xs.slice(0, limit) : xs\<close> for an integral limit: a negative
  one counts from the end of the list.
\<close>

definition apply_limit :: "'a list \<Rightarrow> int option \<Rightarrow> 'a list" where
  "apply_limit xs lmt =
     (case lmt of
        None \<Rightarrow> xs
      | Some n \<Rightarrow> if n < 0 then take (nat (int (length xs) + n)) xs else take (nat n) xs)"

text \<open>\<open>!sortBy\<close>: the name is absent or the empty string.\<close>

definition no_sort :: "jsstring option \<Rightarrow> bool" where
  "no_sort s = (s = None \<or> s = Some [])"

text \<open>The scoring loop: a record is pushed when its score reaches the minimum.\<close>

fun score_loop :: "js_env \<Rightarrow> Product list \<Rightarrow> jsstring list \<Rightarrow> SearchResult list \<Rightarrow> SearchResult list" where
  "score_loop env [] tokens results = results"
| "score_loop env (p # ps) tokens results =
     (let score = calculateScore env p tokens
      in if score \<ge> MINIMUM_SCORE
         then score_loop env ps tokens (results @ [mk_result p score (getMatches env p tokens)])
         else score_loop env ps tokens results)"

definition cmp_relevance :: "SearchResult \<Rightarrow> SearchResult \<Rightarrow> real option" where
  "cmp_relevance a b = Some (relevanceScore b - relevanceScore a)"

definition searchProducts :: "js_env \<Rightarrow> Product list \<Rightarrow> SearchOptions \<Rightarrow> SearchResult list" where
  "searchProducts env ps options =
     (let filtered = applyFilters ps (filters options)
      in if query options = [] \<or> trim (query options) = [] then
           (let results = map (\<lambda>p. mk_result p 0 []) filtered;
                sorted_results = sortResults env results
                           (if no_sort (sortBy options) then Some (js ''vendor-asc'') else sortBy options)
            in apply_limit sorted_results (limit options))
         else
           (let tokens = tokenize env (query options)
            in if length tokens = 0 then []
               else
                 (let results = js_sort cmp_relevance (score_loop env filtered tokens [])
                  in if no_sort (sortBy options) then apply_limit results (limit options)
                     else apply_limit (sortResults env results (sortBy options)) (limit options))))"

section \<open>The wording of the specification\<close>

subsection \<open>Normal forms\<close>

text \<open>
  The specification words the normal form of a text as: lower-cased, trimmed, every run of
  white space collapsed to a single space; and the empty string for an absent text. Read on
  the words of the text, that is: the maximal runs of code units that are not white space,
  lower-cased as a whole before, joined by single blanks. \<open>words_of\<close> and \<open>unwords\<close> say so
  without the engine's functions.
\<close>

fun words_of :: "jsstring \<Rightarrow> jsstring list" where
  "words_of [] = []"
| "words_of (c # cs) =
     (if is_space c then words_of cs
      else if cs = [] \<or> is_space (hd cs) then [c] # words_of cs
      else (c # hd (words_of cs)) # tl (words_of cs))"

fun unwords :: "jsstring list \<Rightarrow> jsstring" where
  "unwords [] = []"
| "unwords [w] = w"
| "unwords (w # v # ws) = w @ blank # unwords (v # ws)"

definition spec_normalize :: "js_env \<Rightarrow> jsstring \<Rightarrow> jsstring" where
  "spec_normalize env s = (if s = [] then [] else unwords (words_of (toLowerCase env s)))"

text \<open>
  HTML stripping, in the specification's words, replaces any \<open><...>\<close> tag with a single
  space and collapses white space. A tag opens at a \<open><\<close> that has a \<open>>\<close> after it and
  closes at the first \<open>>\<close>; the flag says that the scan is inside a tag.
\<close>

fun strip_tags_spec :: "jsstring \<Rightarrow> bool \<Rightarrow> jsstring" where
  "strip_tags_spec [] in_tag = []"
| "strip_tags_spec (c # cs) in_tag =
     (if in_tag then strip_tags_spec cs (c \<noteq> gt_sign)
      else if c = lt_sign \<and> gt_sign \<in> set cs then blank # strip_tags_spec cs True
      else c # strip_tags_spec cs False)"

definition spec_stripHtml :: "jsstring \<Rightarrow> jsstring" where
  "spec_stripHtml html = unwords (words_of (strip_tags_spec html False))"

subsection \<open>The ladder of the field scorer\<close>

text \<open>
  The ladder as the specification words it: the first rule that matches the token against
  the normalized field decides the rung, and each rung has a factor. Prefix, substring and
  subsequence are the library's \<open>prefix\<close>, \<open>sublist\<close> and \<open>subseq\<close>. In \<open>ladder_rung_spec\<close>
  the last rung is worded as in the specification: for a token of length at least 3 and a
  normalized field of length at most 120, the token stripped of everything but \<open>a-z0-9\<close>
  is a subsequence of the field stripped alike. \<open>ladder_rung\<close> asks in addition that the
  stripped token is not empty.
\<close>

datatype rung = Exact | Prefix | Boundary | Substring | Fuzzy | NoMatch

fun rung_value :: "rung \<Rightarrow> real" where
  "rung_value Exact = 10"
| "rung_value Prefix = 5"
| "rung_value Boundary = 4"
| "rung_value Substring = 2"
| "rung_value Fuzzy = 1"
| "rung_value NoMatch = 0"

definition field_normal_form :: "js_env \<Rightarrow> jsstring option \<Rightarrow> jsstring" where
  "field_normal_form env field = (case field of None \<Rightarrow> [] | Some s \<Rightarrow> spec_normalize env s)"

definition upper_rung :: "jsstring \<Rightarrow> jsstring \<Rightarrow> rung" where
  "upper_rung token normalized =
     (if normalized = token then Exact
      else if prefix token normalized then Prefix
      else if sublist (blank # token @ [blank]) normalized
              \<or> prefix (token @ [blank]) normalized
              \<or> suffix (blank # token) normalized then Boundary
      else if sublist token normalized then Substring
      else NoMatch)"

definition ladder_rung_spec :: "js_env \<Rightarrow> jsstring \<Rightarrow> jsstring option \<Rightarrow> rung" where
  "ladder_rung_spec env token field =
     (let normalized = field_normal_form env field
      in if upper_rung token normalized \<noteq> NoMatch then upper_rung token normalized
         else if length token \<ge> 3 \<and> length normalized \<le> 120
                 \<and> subseq (strip_non_alnum token) (strip_non_alnum normalized) then Fuzzy
         else NoMatch)"

definition ladder_rung :: "js_env \<Rightarrow> jsstring \<Rightarrow> jsstring option \<Rightarrow> rung" where
  "ladder_rung env token field =
     (let normalized = field_normal_form env field
      in if upper_rung token normalized \<noteq> NoMatch then upper_rung token normalized
         else if length token \<ge> 3 \<and> length normalized \<le> 120
                 \<and> strip_non_alnum token \<noteq> []
                 \<and> subseq (strip_non_alnum token) (strip_non_alnum normalized) then Fuzzy
         else NoMatch)"

definition ladder_score_spec :: "js_env \<Rightarrow> jsstring list \<Rightarrow> jsstring option \<Rightarrow> real \<Rightarrow> real" where
  "ladder_score_spec env tokens field weight =
     sum_list (map (\<lambda>t. rung_value (ladder_rung_spec env t field) * weight) tokens)"

definition ladder_score :: "js_env \<Rightarrow> jsstring list \<Rightarrow> jsstring option \<Rightarrow> real \<Rightarrow> real" where
  "ladder_score env tokens field weight =
     sum_list (map (\<lambda>t. rung_value (ladder_rung env t field) * weight) tokens)"

subsection \<open>The matched fields\<close>

text \<open>
  The matched fields as the specification words them: the normalized texts of a named field
  (the description falling back to the HTML body, tags stripped; one text per tag for
  \<open>tags\<close>), and the test that some token is a substring of one of them.
\<close>

definition field_texts :: "js_env \<Rightarrow> 'a Product_scheme \<Rightarrow> jsstring \<Rightarrow> jsstring list" where
  "field_texts env p name =
     (if name = js ''title'' then [spec_normalize env (title p)]
      else if name = js ''vendor'' then [spec_normalize env (vendor p)]
      else if name = js ''description'' then
        [spec_normalize env
           (spec_stripHtml (if description p = [] then bodyHtml p else description p))]
      else if name = js ''tags'' then map (spec_normalize env) (tags p)
      else [])"

definition field_matched :: "js_env \<Rightarrow> 'a Product_scheme \<Rightarrow> jsstring list \<Rightarrow> jsstring \<Rightarrow> bool" where
  "field_matched env p tokens name =
     (\<exists>t \<in> set tokens. \<exists>x \<in> set (field_texts env p name). sublist t x)"

text \<open>What a named field contributes to the score of a record in \<open>calculateScore\<close>.\<close>

definition field_score :: "js_env \<Rightarrow> 'a Product_scheme \<Rightarrow> jsstring list \<Rightarrow> jsstring \<Rightarrow> real" where
  "field_score env p tokens name =
     (if name = js ''title'' then scoreField env tokens (Some (title p)) 3
      else if name = js ''vendor'' then scoreField env tokens (Some (vendor p)) 2
      else if name = js ''description'' then
        scoreField env tokens (Some (stripHtml (description_or_body p))) 1
      else if name = js ''tags'' then scoreField env tokens (Some (join_space (tags p))) (1 / 2)
      else 0)"

text \<open>
  Lower-casing the joined tags is joining the lower-cased tags: the runtime's lower-casing
  does not look across a blank.
\<close>

definition lower_joins :: "js_env \<Rightarrow> jsstring list \<Rightarrow> bool" where
  "lower_joins env ts = (toLowerCase env (join_space ts) = join_space (map (toLowerCase env) ts))"

section \<open>A sample runtime and sample inputs\<close>

text \<open>
  A runtime for concrete evaluation: it parses one JSON text, converts numbers to themselves
  and everything else to \<open>NaN\<close>, reads the string \<open>0\<close> as the number 0 and no other
  string as a number, knows two dates, compares strings code unit by code unit, lower-cases
  the letters \<open>A\<close> to \<open>Z\<close>, and rounds no number. It agrees with the runtime on the
  samples: they hold no other JSON text, numeral, date or cased letter, their vendor names
  differ in the first letter, and they divide and multiply only numbers whose results are
  doubles.
\<close>

definition sample_json :: jsstring where
  \<open>sample_json = js ''{"min_variant_price":{"amount":5}}''\<close>

fun compare_codes :: "jsstring \<Rightarrow> jsstring \<Rightarrow> int" where
  "compare_codes [] [] = 0"
| "compare_codes [] (y # ys) = - 1"
| "compare_codes (x # xs) [] = 1"
| "compare_codes (x # xs) (y # ys) =
     (if x < y then - 1
      else if y < x then 1
      else compare_codes xs ys)"

definition ascii_lower :: "nat \<Rightarrow> nat" where
  "ascii_lower c = (if 65 \<le> c \<and> c \<le> 90 then c + 32 else c)"

definition sample_env :: js_env where
  "sample_env =
     \<lparr> JSON_parse = (\<lambda>s. if s = sample_json
                          then Some (JObj [(js ''min_variant_price'', JObj [(js ''amount'', JNum 5)])])
                          else None),
       to_Number = (\<lambda>v. case v of JNum r \<Rightarrow> Inr (Some r) | _ \<Rightarrow> Inr None),
       parseFloat = (\<lambda>v. if v = JStr (js ''0'') then Inr (Some 0) else Inr None),
       parseInt10 = (\<lambda>v. if v = JStr (js ''0'') then Inr (Some 0) else Inr None),
       Date_getTime = (\<lambda>s. if s = js ''2024-01-01'' then Some 1704067200000
                            else if s = js ''2025-01-01'' then Some 1735689600000
                            else None),
       localeCompare = compare_codes,
       toLowerCase = map ascii_lower,
       nearest_double = (\<lambda>x. x) \<rparr>"

text \<open>A record with the given identifier, title, vendor, price amount and creation date.\<close>

definition sample_product :: "jsstring \<Rightarrow> jsstring \<Rightarrow> jsstring \<Rightarrow> real \<Rightarrow> jsstring \<Rightarrow> Product" where
  "sample_product i t v a d =
     \<lparr> product_id = i, title = t, handle = [], vendor = v, productType = [],
       description = [], bodyHtml = [], tags = [], status = js ''ACTIVE'',
       createdAt = d, updatedAt = d, price = \<lparr> amount = a, currency = JStr (js ''GBP'') \<rparr>,
       inventory = Some 1, images = [], rating = None, reviewCount = None \<rparr>"

text \<open>
  Two records, the newer one from the vendor that sorts last; three records of which the
  middle one has no creation date, as the parser leaves it when the column is missing; and
  a record whose description is marked up and whose tags have capitals and blanks.
\<close>

definition sample_products :: "Product list" where
  "sample_products =
     [sample_product (js ''1'') (js ''Whey Protein'') (js ''Zeta Labs'') 40 (js ''2025-01-01''),
      sample_product (js ''2'') (js ''Casein'') (js ''Alpha Foods'') 20 (js ''2024-01-01'')]"

definition undated_products :: "Product list" where
  "undated_products =
     [sample_product (js ''1'') (js ''Whey Protein'') (js ''Zeta Labs'') 40 (js ''2024-01-01''),
      sample_product (js ''2'') (js ''Casein'') (js ''Alpha Foods'') 20 [],
      sample_product (js ''3'') (js ''Creatine'') (js ''Beta'') 30 (js ''2025-01-01'')]"

definition marked_up_product :: Product where
  "marked_up_product =
     (sample_product (js ''4'') (js ''Casein'') (js ''Alpha Foods'') 20 (js ''2024-01-01''))
       \<lparr> description := js ''<p>Slow  <b>Release</b></p>'',
         tags := [js '' Night  Time '', js ''Vegan''] \<rparr>"

text \<open>A header and two rows: an active record priced 5, and a draft.\<close>

definition sample_csv :: jsstring where
  \<open>sample_csv = js ''ID,STATUS,PRICE_RANGE_V2\<newline>1,ACTIVE,"{""min_variant_price"":{""amount"":5}}"\<newline>2,DRAFT,x''\<close>

text \<open>A header and as many rows as make \<open>k\<close> lines; a header alone; a header over a line of no-break spaces.\<close>

definition sample_rows :: "nat \<Rightarrow> jsstring" where
  "sample_rows k = concat (replicate k [97, LF])"

definition header_only :: jsstring where
  "header_only = js ''ID,STATUS''"

definition header_and_nbsp :: jsstring where
  "header_and_nbsp = js ''ID'' @ [LF, 160, 160, LF]"

text \<open>An observer that throws at every call, and one that returns from every call.\<close>

definition throwing_observer :: observer where
  "throwing_observer calls = Some TypeError"

definition quiet_observer :: observer where
  "quiet_observer calls = None"

section \<open>Properties of the record parser\<close>

subsection \<open>The line splitter keeps no blank line\<close>

lemma push_line_nonblank:
  "\<forall>l \<in> set lines. trim l \<noteq> [] \<Longrightarrow> \<forall>l \<in> set (push_line lines cur). trim l \<noteq> []"
  by (simp add: push_line_def)

lemma split_loop_nonblank:
  "\<forall>l \<in> set lines. trim l \<noteq> [] \<Longrightarrow> \<forall>l \<in> set (split_loop s cur q lines). trim l \<noteq> []"
proof (induction s cur q lines rule: split_loop.induct)
  case (1 currentLine inQuotes lines)
  then show ?case using push_line_nonblank by simp
next
  case (2 c currentLine inQuotes lines)
  then show ?case using push_line_nonblank by simp
next
  case (3 c c' rest currentLine inQuotes lines)
  then show ?case using push_line_nonblank by simp
qed

lemma splitLines_nonblank: "\<forall>l \<in> set (splitLines t). trim l \<noteq> []"
  unfolding splitLines_def by (rule split_loop_nonblank) simp

subsection \<open>Invariants of the row loop\<close>

lemma call_observer_fields [simp]:
  "ls_products (call_observer f c st) = ls_products st"
  "ls_skippedRows (call_observer f c st) = ls_skippedRows st"
  "ls_errors (call_observer f c st) = ls_errors st"
  "ls_calls (call_observer f c st) = ls_calls st @ [c]"
  "ls_raised (call_observer f c st) = f (ls_calls st @ [c])"
  by (simp_all add: call_observer_def)

lemma report_products [simp]: "ls_products (report env obs i n st) = ls_products st"
  and report_skipped [simp]: "ls_skippedRows (report env obs i n st) = ls_skippedRows st"
  and report_errors [simp]: "ls_errors (report env obs i n st) = ls_errors st"
  by (simp_all add: report_def split: option.splits)

lemma row_step_calls [simp]: "ls_calls (row_step env h l st) = ls_calls st"
  and row_step_raised [simp]: "ls_raised (row_step env h l st) = ls_raised st"
  by (simp_all add: row_step_def split: sum.splits option.splits)

lemma row_step_count:
  "length (ls_products (row_step env h l st)) + ls_skippedRows (row_step env h l st)
     = Suc (length (ls_products st) + ls_skippedRows st)"
  by (simp add: row_step_def split: sum.splits option.splits)

lemma row_step_errors:
  "ls_errors st \<le> ls_skippedRows st \<Longrightarrow>
   ls_errors (row_step env h l st) \<le> ls_skippedRows (row_step env h l st)"
  by (simp add: row_step_def split: sum.splits option.splits)

lemma row_step_retained:
  "\<forall>p \<in> set (ls_products st). status p = js ''ACTIVE'' \<and> amount (price p) > 0 \<Longrightarrow>
   \<forall>p \<in> set (ls_products (row_step env h l st)). status p = js ''ACTIVE'' \<and> amount (price p) > 0"
  by (auto simp add: row_step_def split: sum.splits option.splits)

text \<open>A loop that no observer call has ended has gone through every row.\<close>

lemma parse_rows_count:
  "ls_raised (parse_rows env obs h n i ls st) = None \<Longrightarrow>
   length (ls_products (parse_rows env obs h n i ls st)) + ls_skippedRows (parse_rows env obs h n i ls st)
     = length (ls_products st) + ls_skippedRows st + length ls"
proof (induction ls arbitrary: i st)
  case Nil
  then show ?case by simp
next
  case (Cons l ls)
  show ?case
  proof (cases "trim l = []")
    case True
    then show ?thesis
      using Cons.IH [of "Suc i" "st\<lparr> ls_skippedRows := ls_skippedRows st + 1 \<rparr>"] Cons.prems
      by (simp add: Let_def)
  next
    case False
    define st' where "st' = report env obs i n (row_step env h (trim l) st)"
    show ?thesis
    proof (cases "ls_raised st' = None")
      case True
      then have run: "parse_rows env obs h n i (l # ls) st = parse_rows env obs h n (Suc i) ls st'"
        using False by (simp add: Let_def st'_def)
      from Cons.prems have "ls_raised (parse_rows env obs h n (Suc i) ls st') = None"
        unfolding run .
      from Cons.IH [OF this] show ?thesis
        unfolding run by (simp add: st'_def row_step_count)
    next
      case raised: False
      then have "parse_rows env obs h n i (l # ls) st = st'"
        using False by (simp add: Let_def st'_def)
      with Cons.prems raised show ?thesis by simp
    qed
  qed
qed

lemma parse_rows_errors:
  "ls_errors st \<le> ls_skippedRows st \<Longrightarrow>
   ls_errors (parse_rows env obs h n i ls st) \<le> ls_skippedRows (parse_rows env obs h n i ls st)"
  by (induction ls arbitrary: i st) (simp_all add: Let_def row_step_errors)

lemma parse_rows_retained:
  "\<forall>p \<in> set (ls_products st). status p = js ''ACTIVE'' \<and> amount (price p) > 0 \<Longrightarrow>
   \<forall>p \<in> set (ls_products (parse_rows env obs h n i ls st)).
      status p = js ''ACTIVE'' \<and> amount (price p) > 0"
proof (induction ls arbitrary: i st)
  case Nil
  then show ?case by simp
next
  case (Cons l ls)
  show ?case
  proof (cases "trim l = []")
    case True
    then show ?thesis
      using Cons.IH [of "st\<lparr> ls_skippedRows := ls_skippedRows st + 1 \<rparr>" "Suc i"] Cons.prems
      by (simp add: Let_def)
  next
    case False
    have keep: "\<forall>p \<in> set (ls_products (report env obs i n (row_step env h (trim l) st))).
            status p = js ''ACTIVE'' \<and> amount (price p) > 0"
      using row_step_retained [OF Cons.prems] by simp
    from Cons.IH [OF keep] keep False show ?thesis by (simp add: Let_def)
  qed
qed

lemma report_raised_by:
  "raised_by obs st \<Longrightarrow> raised_by obs (report env obs i n st)"
  by (auto simp add: raised_by_def report_def split: option.splits)

lemma row_step_raised_by:
  "raised_by obs st \<Longrightarrow> raised_by obs (row_step env h l st)"
  by (simp add: raised_by_def)

lemma parse_rows_raised_by:
  "raised_by obs st \<Longrightarrow> raised_by obs (parse_rows env obs h n i ls st)"
proof (induction ls arbitrary: i st)
  case Nil
  then show ?case by simp
next
  case (Cons l ls)
  show ?case
  proof (cases "trim l = []")
    case True
    have "raised_by obs (st\<lparr> ls_skippedRows := ls_skippedRows st + 1 \<rparr>)"
      using Cons.prems by (simp add: raised_by_def)
    from Cons.IH [OF this] True show ?thesis by (simp add: Let_def)
  next
    case False
    have keep: "raised_by obs (report env obs i n (row_step env h (trim l) st))"
      using Cons.prems by (intro report_raised_by row_step_raised_by)
    from Cons.IH [OF keep] keep False show ?thesis by (simp add: Let_def)
  qed
qed

text \<open>With an observer whose calls all return, and with none, the loop is never ended.\<close>

lemma report_quiet:
  "\<forall>f. obs = Some f \<longrightarrow> (\<forall>cs. f cs = None) \<Longrightarrow> ls_raised st = None \<Longrightarrow>
   ls_raised (report env obs i n st) = None"
  by (simp add: report_def split: option.splits)

lemma parse_rows_quiet:
  "\<forall>f. obs = Some f \<longrightarrow> (\<forall>cs. f cs = None) \<Longrightarrow> ls_raised st = None \<Longrightarrow>
   ls_raised (parse_rows env obs h n i ls st) = None"
proof (induction ls arbitrary: i st)
  case Nil
  then show ?case by simp
next
  case (Cons l ls)
  have a: "ls_raised (st\<lparr> ls_skippedRows := ls_skippedRows st + 1 \<rparr>) = None"
    using Cons.prems(2) by simp
  have b: "ls_raised (report env obs i n (row_step env h (trim l) st)) = None"
    using Cons.prems by (intro report_quiet) simp_all
  show ?case
    using Cons.IH [OF Cons.prems(1) a] Cons.IH [OF Cons.prems(1) b] b by (simp add: Let_def)
qed

text \<open>The outcome of \<open>parseCSV\<close>, by the number of lines kept.\<close>

lemma parseCSV_short:
  "length (splitLines t) < 2 \<Longrightarrow> parseCSV env obs t = ([], Inr empty_result)"
  by (simp add: parseCSV_def Let_def empty_result_def)

lemma parseCSV_raised:
  "\<not> length (splitLines t) < 2 \<Longrightarrow> ls_raised (rows_state env obs t) = Some e \<Longrightarrow>
   parseCSV env obs t = (ls_calls (rows_state env obs t), Inl e)"
  by (simp add: parseCSV_def Let_def rows_state_def)

lemma parseCSV_unobserved:
  "\<not> length (splitLines t) < 2 \<Longrightarrow> ls_raised (rows_state env None t) = None \<Longrightarrow>
   parseCSV env None t =
     (ls_calls (rows_state env None t),
      Inr \<lparr> products = ls_products (rows_state env None t),
            stats = final_stats (length (splitLines t) - 1) (rows_state env None t) \<rparr>)"
  by (simp add: parseCSV_def Let_def rows_state_def)

lemma parseCSV_observed:
  "\<not> length (splitLines t) < 2 \<Longrightarrow> ls_raised (rows_state env (Some f) t) = None \<Longrightarrow>
   parseCSV env (Some f) t =
     (ls_calls (rows_state env (Some f) t)
        @ [(100, final_stats (length (splitLines t) - 1) (rows_state env (Some f) t))],
      case f (ls_calls (rows_state env (Some f) t)
                @ [(100, final_stats (length (splitLines t) - 1) (rows_state env (Some f) t))]) of
        Some e \<Rightarrow> Inl e
      | None \<Rightarrow> Inr \<lparr> products = ls_products (rows_state env (Some f) t),
                       stats = final_stats (length (splitLines t) - 1) (rows_state env (Some f) t) \<rparr>)"
  by (auto simp add: parseCSV_def Let_def rows_state_def split: option.splits)

text \<open>Whatever \<open>parseCSV\<close> returns for 2 lines or more is built from the state of a loop
  that went through every row.\<close>

lemma parseCSV_returns:
  assumes "\<not> length (splitLines t) < 2" and "snd (parseCSV env obs t) = Inr r"
  shows "ls_raised (rows_state env obs t) = None
       \<and> r = \<lparr> products = ls_products (rows_state env obs t),
               stats = final_stats (length (splitLines t) - 1) (rows_state env obs t) \<rparr>"
proof (cases "ls_raised (rows_state env obs t)")
  case (Some e)
  from parseCSV_raised [OF assms(1) this] assms(2) show ?thesis by simp
next
  case None
  show ?thesis
  proof (cases obs)
    case obs: None
    from parseCSV_unobserved [OF assms(1)] None assms(2) show ?thesis
      unfolding obs by simp
  next
    case (Some f)
    from parseCSV_observed [OF assms(1)] None assms(2) show ?thesis
      unfolding Some by (simp split: option.splits)
  qed
qed

lemma parseCSV_quiet:
  assumes "\<forall>f. obs = Some f \<longrightarrow> (\<forall>cs. f cs = None)"
  shows "\<exists>r. snd (parseCSV env obs t) = Inr r"
proof (cases "length (splitLines t) < 2")
  case True
  then show ?thesis by (simp add: parseCSV_short)
next
  case False
  have none: "ls_raised (rows_state env obs t) = None"
    unfolding rows_state_def using assms by (rule parse_rows_quiet) simp
  show ?thesis
  proof (cases obs)
    case None
    from parseCSV_unobserved [OF False] none show ?thesis unfolding None by simp
  next
    case (Some f)
    with assms have "\<forall>cs. f cs = None" by simp
    with parseCSV_observed [OF False] none show ?thesis unfolding Some by simp
  qed
qed

lemma parseCSV_thrown:
  assumes "snd (parseCSV env obs t) = Inl e"
  shows "\<exists>f. obs = Some f \<and> fst (parseCSV env obs t) \<noteq> [] \<and> f (fst (parseCSV env obs t)) = Some e"
proof (cases "length (splitLines t) < 2")
  case True
  with assms show ?thesis by (simp add: parseCSV_short)
next
  case False
  have rb: "raised_by obs (rows_state env obs t)"
    unfolding rows_state_def by (rule parse_rows_raised_by) (simp add: raised_by_def)
  show ?thesis
  proof (cases "ls_raised (rows_state env obs t)")
    case (Some e')
    from parseCSV_raised [OF False Some] assms have "e' = e" by simp
    with rb Some parseCSV_raised [OF False Some] show ?thesis
      by (auto simp add: raised_by_def)
  next
    case None
    show ?thesis
    proof (cases obs)
      case obs: None
      from parseCSV_unobserved [OF False] None assms show ?thesis unfolding obs by simp
    next
      case (Some f)
      from parseCSV_observed [OF False] None assms show ?thesis
        unfolding Some by (simp split: option.splits)
    qed
  qed
qed

subsection \<open>The calls made to the observer\<close>

lemma percent_mono:
  assumes "\<forall>x y. x \<le> y \<longrightarrow> nearest_double env x \<le> nearest_double env y" and "i \<le> j"
  shows "percent_of env i n \<le> percent_of env j n"
proof -
  have "real i / real n \<le> real j / real n" using assms(2) by (simp add: divide_right_mono)
  with assms(1) have "nearest_double env (real i / real n) \<le> nearest_double env (real j / real n)"
    by blast
  then have "nearest_double env (real i / real n) * 100 \<le> nearest_double env (real j / real n) * 100"
    by simp
  with assms(1) have "nearest_double env (nearest_double env (real i / real n) * 100)
                    \<le> nearest_double env (nearest_double env (real j / real n) * 100)"
    by blast
  then have "\<lfloor>nearest_double env (nearest_double env (real i / real n) * 100) + 1 / 2\<rfloor>
           \<le> \<lfloor>nearest_double env (nearest_double env (real j / real n) * 100) + 1 / 2\<rfloor>"
    by (intro floor_mono) simp
  then show ?thesis unfolding percent_of_def by (rule nat_mono)
qed

lemma percent_full:
  assumes "nearest_double env 1 = 1" and "nearest_double env 100 = 100" and "0 < n"
  shows "percent_of env n n = 100"
proof -
  have "real n / real n = 1" using assms(3) by simp
  then have "nearest_double env (nearest_double env (real n / real n) * 100) + 1 / 2 = 100 + 1 / 2"
    using assms(1,2) by simp
  moreover have "\<lfloor>100 + 1 / 2 :: real\<rfloor> = 100" by linarith
  ultimately show ?thesis unfolding percent_of_def by simp
qed

lemma percent_le_100:
  assumes "\<forall>x y. x \<le> y \<longrightarrow> nearest_double env x \<le> nearest_double env y"
    and "nearest_double env 1 = 1" and "nearest_double env 100 = 100"
    and "0 < n" and "i \<le> n"
  shows "percent_of env i n \<le> 100"
  using percent_mono [OF assms(1,5), of n] percent_full [OF assms(2,3,4)] by simp

lemma report_calls:
  assumes "\<forall>cs. f cs = None"
  shows "map (\<lambda>c. (fst c, totalRows (snd c))) (ls_calls (report env (Some f) i n st))
     = map (\<lambda>c. (fst c, totalRows (snd c))) (ls_calls st)
       @ map (\<lambda>j. (percent_of env j n, j)) (filter (\<lambda>j. j mod 1000 = 0) [i])"
  by (simp add: report_def)

lemma parse_rows_calls:
  assumes "\<forall>cs. f cs = None"
  shows "\<forall>l \<in> set ls. trim l \<noteq> [] \<Longrightarrow> ls_raised st = None \<Longrightarrow>
   map (\<lambda>c. (fst c, totalRows (snd c))) (ls_calls (parse_rows env (Some f) h n i ls st))
     = map (\<lambda>c. (fst c, totalRows (snd c))) (ls_calls st)
       @ map (\<lambda>j. (percent_of env j n, j)) (filter (\<lambda>j. j mod 1000 = 0) [i..<i + length ls])"
proof (induction ls arbitrary: i st)
  case Nil
  then show ?case by simp
next
  case (Cons l ls)
  have up: "[i..<i + length (l # ls)] = [i] @ [Suc i..<Suc i + length ls]"
    by (simp add: upt_conv_Cons del: upt_Suc)
  from Cons.prems have nb: "trim l \<noteq> []" and rest: "\<forall>l \<in> set ls. trim l \<noteq> []" by simp_all
  have quiet: "ls_raised (report env (Some f) i n (row_step env h (trim l) st)) = None"
    using assms Cons.prems(2) by (simp add: report_def)
  have step: "parse_rows env (Some f) h n i (l # ls) st
                = parse_rows env (Some f) h n (Suc i) ls
                    (report env (Some f) i n (row_step env h (trim l) st))"
    using nb quiet by (simp add: Let_def)
  show ?case
    unfolding up step Cons.IH [OF rest quiet] report_calls [OF assms] filter_append map_append
    by simp
qed

lemma sorted_map_filter_mono:
  fixes xs :: "nat list" and f :: "nat \<Rightarrow> nat"
  shows "sorted xs \<Longrightarrow> (\<And>a b. a \<le> b \<Longrightarrow> f a \<le> f b) \<Longrightarrow> sorted (map f (filter P xs))"
  by (induction xs) auto

lemma sorted_percents:
  assumes "\<forall>x y. x \<le> y \<longrightarrow> nearest_double env x \<le> nearest_double env y"
    and "nearest_double env 1 = 1" and "nearest_double env 100 = 100"
    and "0 < n"
  shows "sorted (map (\<lambda>j. percent_of env j n) (filter P [i..<Suc n]) @ [100])"
proof -
  have "sorted (map (\<lambda>j. percent_of env j n) (filter P [i..<Suc n]))"
    by (rule sorted_map_filter_mono) (simp_all add: percent_mono [OF assms(1)] del: upt_Suc)
  moreover have "\<forall>x \<in> set (map (\<lambda>j. percent_of env j n) (filter P [i..<Suc n])). x \<le> 100"
    using percent_le_100 [OF assms] by auto
  ultimately show ?thesis by (simp add: sorted_append)
qed

text \<open>
  The calls of a run of 2 lines or more with an observer whose calls all return: the
  intermediate calls, one for each row index that is a multiple of 1000, then the final one.
\<close>

lemma parseCSV_calls_rows:
  assumes "2 \<le> length (splitLines t)" and "\<forall>cs. f cs = None"
  shows "\<exists>inter r.
           parseCSV env (Some f) t = (inter @ [(100, stats r)], Inr r)
         \<and> map (\<lambda>c. (fst c, totalRows (snd c))) inter
             = map (\<lambda>j. (percent_of env j (length (splitLines t) - 1), j))
                 (filter (\<lambda>j. j mod 1000 = 0) [1..<length (splitLines t)])"
proof -
  let ?n = "length (splitLines t) - 1"
  define st where "st = rows_state env (Some f) t"
  from assms(1) have long: "\<not> length (splitLines t) < 2" by simp
  have none: "ls_raised st = None"
    unfolding st_def rows_state_def using assms(2) by (intro parse_rows_quiet) simp_all
  from parseCSV_observed [OF long, of env f] none assms(2)
  have run: "parseCSV env (Some f) t =
                (ls_calls st @ [(100, final_stats ?n st)],
                 Inr \<lparr> products = ls_products st, stats = final_stats ?n st \<rparr>)"
    unfolding st_def by simp
  have nb: "\<forall>l \<in> set (tl (splitLines t)). trim l \<noteq> []"
    using splitLines_nonblank [of t] by (cases "splitLines t") simp_all
  have len: "1 + length (tl (splitLines t)) = length (splitLines t)"
    using assms(1) by simp
  have "map (\<lambda>c. (fst c, totalRows (snd c))) (ls_calls st)
          = map (\<lambda>c. (fst c, totalRows (snd c))) []
            @ map (\<lambda>j. (percent_of env j ?n, j))
                (filter (\<lambda>j. j mod 1000 = 0) [1..<1 + length (tl (splitLines t))])"
    unfolding st_def rows_state_def
    using parse_rows_calls [OF assms(2) nb, of _ env _ ?n 1] by (simp del: upt_Suc)
  then have inter: "map (\<lambda>c. (fst c, totalRows (snd c))) (ls_calls st)
                 = map (\<lambda>j. (percent_of env j ?n, j))
                     (filter (\<lambda>j. j mod 1000 = 0) [1..<length (splitLines t)])"
    unfolding len by simp
  show ?thesis using run inter by auto
qed

lemma parseCSV_calls_sorted:
  assumes "2 \<le> length (splitLines t)" and "\<forall>cs. f cs = None"
    and "\<forall>x y. x \<le> y \<longrightarrow> nearest_double env x \<le> nearest_double env y"
    and "nearest_double env 1 = 1" and "nearest_double env 100 = 100"
  shows "sorted (map fst (fst (parseCSV env (Some f) t)))"
proof -
  let ?n = "length (splitLines t) - 1"
  from parseCSV_calls_rows [OF assms(1,2), of env] obtain inter r where
    run: "parseCSV env (Some f) t = (inter @ [(100, stats r)], Inr r)"
    and inter: "map (\<lambda>c. (fst c, totalRows (snd c))) inter
             = map (\<lambda>j. (percent_of env j ?n, j))
                 (filter (\<lambda>j. j mod 1000 = 0) [1..<length (splitLines t)])"
    by blast
  have sn: "Suc ?n = length (splitLines t)" using assms(1) by simp
  have "map fst inter = map fst (map (\<lambda>c. (fst c, totalRows (snd c))) inter)"
    by simp
  also have "\<dots> = map (\<lambda>j. percent_of env j ?n)
                      (filter (\<lambda>j. j mod 1000 = 0) [1..<length (splitLines t)])"
    unfolding inter by (simp add: comp_def)
  finally have pct: "map fst inter
      = map (\<lambda>j. percent_of env j ?n) (filter (\<lambda>j. j mod 1000 = 0) [1..<length (splitLines t)])" .
  have "0 < ?n" using assms(1) by simp
  with assms(3,4,5)
  have "sorted (map (\<lambda>j. percent_of env j ?n) (filter (\<lambda>j. j mod 1000 = 0) [1..<Suc ?n]) @ [100])"
    by (rule sorted_percents)
  then have "sorted (map fst inter @ [100])"
    unfolding pct sn .
  then show ?thesis by (simp add: run)
qed

subsection \<open>Evaluation of the samples\<close>

lemma sample_lines: "length (splitLines sample_csv) = 3"
  by code_simp

lemma sample_run:
  "parseCSV sample_env (Some quiet_observer) sample_csv =
     ([(100, \<lparr> totalRows = 2, parsedProducts = 1, skippedRows = 1, errors = 0 \<rparr>)],
      Inr \<lparr> products =
              [\<lparr> product_id = js ''1'', title = js ''Untitled Product'', handle = [],
                 vendor = js ''Unknown'', productType = [], description = [], bodyHtml = [],
                 tags = [], status = js ''ACTIVE'', createdAt = [], updatedAt = [],
                 price = \<lparr> amount = 5, currency = JStr (js ''GBP'') \<rparr>,
                 inventory = Some 0, images = [], rating = None, reviewCount = None \<rparr>],
            stats = \<lparr> totalRows = 2, parsedProducts = 1, skippedRows = 1, errors = 0 \<rparr> \<rparr>)"
  by code_simp

lemma sample_run_thrown:
  "parseCSV sample_env (Some throwing_observer) sample_csv =
     ([(100, \<lparr> totalRows = 2, parsedProducts = 1, skippedRows = 1, errors = 0 \<rparr>)], Inl TypeError)"
  by code_simp

lemma header_only_lines: "length (splitLines header_only) = 1"
  by code_simp

lemma header_and_nbsp_lines: "length (splitLines header_and_nbsp) = 1"
  by code_simp

lemma quiet_observer_quiet: "\<forall>cs. quiet_observer cs = None"
  by (simp add: quiet_observer_def)

lemma sample_rows_lines: "splitLines (sample_rows k) = replicate k [97]"
proof -
  have tr: "trim [97] \<noteq> []" by (simp add: trim_def is_space_def)
  have gen: "split_loop (concat (replicate k [97, LF])) [] False lines = lines @ replicate k [97]"
    for k lines
  proof (induction k arbitrary: lines)
    case 0
    show ?case by (simp add: push_line_def trim_def)
  next
    case (Suc k)
    show ?case
    proof (cases k)
      case 0
      then show ?thesis using tr by (simp add: push_line_def LF_def CR_def dquote_def trim_def)
    next
      case (Suc m)
      then have "concat (replicate k [97, LF]) = 97 # LF # concat (replicate m [97, LF])" by simp
      then show ?thesis using tr Suc.IH [of "lines @ [[97]]"]
        by (simp add: push_line_def LF_def CR_def dquote_def replicate_append_same)
    qed
  qed
  show ?thesis unfolding splitLines_def sample_rows_def by (simp add: gen)
qed

lemma filter_upt_single:
  fixes x :: nat
  assumes "a \<le> x" and "x < b" and "P x" and "\<forall>j. a \<le> j \<and> j < b \<and> j \<noteq> x \<longrightarrow> \<not> P j"
  shows "filter P [a..<b] = [x]"
proof -
  have "[a..<x + (b - x)] = [a..<x] @ [x..<x + (b - x)]"
    using assms(1) by (rule upt_add_eq_append)
  moreover have "x + (b - x) = b" using assms(2) by simp
  moreover have "[x..<b] = x # [Suc x..<b]" using assms(2) by (rule upt_conv_Cons)
  ultimately have split: "[a..<b] = [a..<x] @ [x] @ [Suc x..<b]" by simp
  have l: "filter P [a..<x] = []" using assms(2,4) by (auto simp add: filter_empty_conv)
  have r: "filter P [Suc x..<b] = []" using assms(1,4) by (auto simp add: filter_empty_conv)
  show ?thesis unfolding split filter_append l r using assms(3) by simp
qed

lemma second_thousand:
  fixes j :: nat
  assumes "1000 < j" and "j < 2000"
  shows "j mod 1000 \<noteq> 0"
proof -
  have "j mod 1000 = (j - 1000) mod 1000" using assms(1) by (simp add: le_mod_geq)
  also have "\<dots> = j - 1000" using assms(2) by simp
  finally show ?thesis using assms(1) by simp
qed

lemma multiples_upto_1000: "filter (\<lambda>j. j mod 1000 = 0) [Suc 0..<1001] = [1000::nat]"
  by (rule filter_upt_single) auto

lemma multiples_upto_2000: "filter (\<lambda>j. j mod 1000 = 0) [Suc 0..<2001] = [1000, 2000::nat]"
proof -
  have a: "[Suc 0..<2001] = [Suc 0..<1001] @ [1001..<2001::nat]"
    using upt_add_eq_append [of "Suc 0" 1001 1000] by simp
  have b: "filter (\<lambda>j. j mod 1000 = 0) [1001..<2001::nat] = [2000]"
  proof (rule filter_upt_single)
    show "\<forall>j::nat. 1001 \<le> j \<and> j < 2001 \<and> j \<noteq> 2000 \<longrightarrow> \<not> j mod 1000 = 0"
      using second_thousand by auto
  qed simp_all
  show ?thesis unfolding a filter_append multiples_upto_1000 b by simp
qed

lemma sample_percents:
  "percent_of sample_env 1000 1000 = 100"
  "percent_of sample_env 1000 2000 = 50"
  "percent_of sample_env 2000 2000 = 100"
proof -
  have "\<lfloor>100 + 1 / 2 :: real\<rfloor> = 100" by linarith
  moreover have "\<lfloor>50 + 1 / 2 :: real\<rfloor> = 50" by linarith
  ultimately show "percent_of sample_env 1000 1000 = 100"
    "percent_of sample_env 1000 2000 = 50"
    "percent_of sample_env 2000 2000 = 100"
    by (simp_all add: percent_of_def sample_env_def)
qed

lemma sample_nearest_double:
  "\<forall>x y. x \<le> y \<longrightarrow> nearest_double sample_env x \<le> nearest_double sample_env y"
  "nearest_double sample_env 1 = 1"
  "nearest_double sample_env 100 = 100"
  by (simp_all add: sample_env_def)

text \<open>With an observer that throws at every call, the loop ends at the first call.\<close>

lemma parse_rows_thrown:
  assumes "\<forall>cs. f cs = Some e"
  shows "\<forall>l \<in> set ls. trim l \<noteq> [] \<Longrightarrow> ls_raised st = None \<Longrightarrow>
   map fst (ls_calls (parse_rows env (Some f) h n i ls st))
     = map fst (ls_calls st)
       @ map (\<lambda>j. percent_of env j n) (take 1 (filter (\<lambda>j. j mod 1000 = 0) [i..<i + length ls]))
   \<and> ls_raised (parse_rows env (Some f) h n i ls st)
     = (if filter (\<lambda>j. j mod 1000 = 0) [i..<i + length ls] = [] then None else Some e)"
proof (induction ls arbitrary: i st)
  case Nil
  then show ?case by simp
next
  case (Cons l ls)
  have up: "[i..<i + length (l # ls)] = i # [Suc i..<Suc i + length ls]"
    by (simp add: upt_conv_Cons del: upt_Suc)
  from Cons.prems have nb: "trim l \<noteq> []" and rest: "\<forall>l \<in> set ls. trim l \<noteq> []" by simp_all
  define st' where "st' = report env (Some f) i n (row_step env h (trim l) st)"
  show ?case
  proof (cases "i mod 1000 = 0")
    case True
    have r: "ls_raised st' = Some e" and c: "map fst (ls_calls st') = map fst (ls_calls st) @ [percent_of env i n]"
      using True assms by (simp_all add: st'_def report_def)
    have "parse_rows env (Some f) h n i (l # ls) st = st'"
      using nb r by (simp add: Let_def st'_def)
    then show ?thesis unfolding up using True r c by simp
  next
    case False
    have r: "ls_raised st' = None" and c: "ls_calls st' = ls_calls st"
      using False Cons.prems(2) by (simp_all add: st'_def report_def)
    have "parse_rows env (Some f) h n i (l # ls) st = parse_rows env (Some f) h n (Suc i) ls st'"
      using nb r by (simp add: Let_def st'_def)
    then show ?thesis unfolding up using False Cons.IH [OF rest r, of "Suc i"] c by simp
  qed
qed

lemma parseCSV_calls_thrown:
  assumes "2 \<le> length (splitLines t)" and "\<forall>cs. f cs = Some e"
    and "filter (\<lambda>j. j mod 1000 = 0) [1..<length (splitLines t)] = j # later"
  shows "map fst (fst (parseCSV env (Some f) t)) = [percent_of env j (length (splitLines t) - 1)]
       \<and> snd (parseCSV env (Some f) t) = Inl e"
proof -
  let ?n = "length (splitLines t) - 1"
  from assms(1) have long: "\<not> length (splitLines t) < 2" by simp
  have nb: "\<forall>l \<in> set (tl (splitLines t)). trim l \<noteq> []"
    using splitLines_nonblank [of t] by (cases "splitLines t") simp_all
  have len: "1 + length (tl (splitLines t)) = length (splitLines t)"
    using assms(1) by simp
  have init: "ls_raised \<lparr> ls_products = [], ls_skippedRows = 0, ls_errors = 0, ls_calls = [],
                          ls_raised = None \<rparr> = None" by simp
  from parse_rows_thrown [OF assms(2) nb init, of env "parseCSVLine (hd (splitLines t))" ?n 1]
  have calls: "map fst (ls_calls (rows_state env (Some f) t)) = [percent_of env j ?n]"
    and raised: "ls_raised (rows_state env (Some f) t) = Some e"
    unfolding rows_state_def len assms(3) by simp_all
  from parseCSV_raised [OF long raised] calls show ?thesis by simp
qed

subsection \<open>Claims about the record parser\<close>

text \<open>
  C1, as the code has it: no input text makes \<open>parseCSV\<close> fail. With fewer than 2
  non-blank lines it returns the empty collection with all-zero statistics and calls no
  observer. An exception reaches the caller only when a call of the observer throws it, and
  then it is the exception of the last call made. Whatever is returned for 2 lines or more
  accounts for every data row, and with an observer whose calls all return, and with none,
  \<open>parseCSV\<close> returns.
\<close>

theorem parseCSV_outcome:
  "(length (splitLines t) < 2 \<longrightarrow> parseCSV env obs t = ([], Inr empty_result))
   \<and> (\<forall>e. snd (parseCSV env obs t) = Inl e \<longrightarrow>
          2 \<le> length (splitLines t)
        \<and> (\<exists>f. obs = Some f \<and> fst (parseCSV env obs t) \<noteq> []
               \<and> f (fst (parseCSV env obs t)) = Some e))
   \<and> (\<forall>r. 2 \<le> length (splitLines t) \<and> snd (parseCSV env obs t) = Inr r \<longrightarrow>
          totalRows (stats r) = length (splitLines t) - 1
        \<and> length (products r) + skippedRows (stats r) = length (splitLines t) - 1)
   \<and> ((\<forall>f. obs = Some f \<longrightarrow> (\<forall>cs. f cs = None)) \<longrightarrow> (\<exists>r. snd (parseCSV env obs t) = Inr r))"
proof (intro conjI allI impI)
  assume "length (splitLines t) < 2"
  then show "parseCSV env obs t = ([], Inr empty_result)" by (rule parseCSV_short)
next
  fix e assume "snd (parseCSV env obs t) = Inl e"
  then show "2 \<le> length (splitLines t)"
    using parseCSV_short [of t env obs] by (cases "length (splitLines t) < 2") simp_all
next
  fix e assume "snd (parseCSV env obs t) = Inl e"
  then show "\<exists>f. obs = Some f \<and> fst (parseCSV env obs t) \<noteq> []
                \<and> f (fst (parseCSV env obs t)) = Some e"
    by (rule parseCSV_thrown)
next
  fix r assume a: "2 \<le> length (splitLines t) \<and> snd (parseCSV env obs t) = Inr r"
  then have long: "\<not> length (splitLines t) < 2" by simp
  from parseCSV_returns [OF long] a
  have none: "ls_raised (rows_state env obs t) = None"
    and r: "r = \<lparr> products = ls_products (rows_state env obs t),
                  stats = final_stats (length (splitLines t) - 1) (rows_state env obs t) \<rparr>"
    by blast+
  have cnt: "length (ls_products (rows_state env obs t)) + ls_skippedRows (rows_state env obs t)
               = length (splitLines t) - 1"
    using parse_rows_count [OF none [unfolded rows_state_def]] unfolding rows_state_def by simp
  show "totalRows (stats r) = length (splitLines t) - 1"
    unfolding r by (simp add: final_stats_def)
  show "length (products r) + skippedRows (stats r) = length (splitLines t) - 1"
    unfolding r using cnt by (simp add: final_stats_def)
next
  assume "\<forall>f. obs = Some f \<longrightarrow> (\<forall>cs. f cs = None)"
  then show "\<exists>r. snd (parseCSV env obs t) = Inr r" by (rule parseCSV_quiet)
qed

theorem parseCSV_outcome_witness:
  "length (splitLines header_and_nbsp) < 2
   \<and> parseCSV sample_env (Some throwing_observer) header_and_nbsp = ([], Inr empty_result)
   \<and> snd (parseCSV sample_env (Some throwing_observer) sample_csv) = Inl TypeError
   \<and> 2 \<le> length (splitLines sample_csv)
   \<and> throwing_observer (fst (parseCSV sample_env (Some throwing_observer) sample_csv))
       = Some TypeError
   \<and> (\<forall>cs. quiet_observer cs = None)
   \<and> (\<exists>r. snd (parseCSV sample_env (Some quiet_observer) sample_csv) = Inr r
          \<and> totalRows (stats r) = 2 \<and> length (products r) + skippedRows (stats r) = 2)"
proof -
  have short: "length (splitLines header_and_nbsp) < 2" by (simp add: header_and_nbsp_lines)
  have thrown: "snd (parseCSV sample_env (Some throwing_observer) sample_csv) = Inl TypeError"
    by (simp add: sample_run_thrown)
  have quiet: "\<forall>f. Some quiet_observer = Some f \<longrightarrow> (\<forall>cs. f cs = None)"
    by (simp add: quiet_observer_def)
  have a: "parseCSV sample_env (Some throwing_observer) header_and_nbsp = ([], Inr empty_result)"
    using parseCSV_outcome [of header_and_nbsp sample_env "Some throwing_observer"] short by blast
  have b: "2 \<le> length (splitLines sample_csv)
         \<and> throwing_observer (fst (parseCSV sample_env (Some throwing_observer) sample_csv))
             = Some TypeError"
    using parseCSV_outcome [of sample_csv sample_env "Some throwing_observer"] thrown by auto
  from parseCSV_outcome [of sample_csv sample_env "Some quiet_observer"] quiet
  obtain r where r: "snd (parseCSV sample_env (Some quiet_observer) sample_csv) = Inr r" by blast
  with b parseCSV_outcome [of sample_csv sample_env "Some quiet_observer"]
  have c: "totalRows (stats r) = length (splitLines sample_csv) - 1
         \<and> length (products r) + skippedRows (stats r) = length (splitLines sample_csv) - 1"
    by blast
  from short a thrown b r c show ?thesis
    by (auto simp add: sample_lines quiet_observer_def)
qed

text \<open>
  C1 as stated fails in both directions: a header with no data row is fewer than 2 non-blank
  lines, and the outcome is a returned value, not an exception, even with an observer that
  would throw; and an input of 2 non-blank lines or more fails when the observer throws.
\<close>

theorem parseCSV_header_only_counterexample:
  "length (splitLines header_only) < 2
   \<and> parseCSV sample_env (Some throwing_observer) header_only = ([], Inr empty_result)
   \<and> 2 \<le> length (splitLines sample_csv)
   \<and> snd (parseCSV sample_env (Some throwing_observer) sample_csv) = Inl TypeError"
  by (simp add: parseCSV_short header_only_lines sample_lines sample_run_thrown)

text \<open>
  C3: for every input text, every record in the collection returned by \<open>parseCSV\<close> has
  status \<open>ACTIVE\<close> and a price amount strictly greater than 0; and \<open>parseCSV\<close> does
  return a collection whenever no call of the observer throws.
\<close>

theorem parseCSV_retention:
  "((\<forall>f. obs = Some f \<longrightarrow> (\<forall>cs. f cs = None)) \<longrightarrow> (\<exists>r. snd (parseCSV env obs t) = Inr r))
   \<and> (\<forall>r. snd (parseCSV env obs t) = Inr r \<longrightarrow>
          (\<forall>p \<in> set (products r). status p = js ''ACTIVE'' \<and> amount (price p) > 0))"
proof (intro conjI allI impI)
  assume "\<forall>f. obs = Some f \<longrightarrow> (\<forall>cs. f cs = None)"
  then show "\<exists>r. snd (parseCSV env obs t) = Inr r" by (rule parseCSV_quiet)
next
  fix r assume ret: "snd (parseCSV env obs t) = Inr r"
  show "\<forall>p \<in> set (products r). status p = js ''ACTIVE'' \<and> amount (price p) > 0"
  proof (cases "length (splitLines t) < 2")
    case True
    with ret show ?thesis by (auto simp add: parseCSV_short empty_result_def)
  next
    case False
    from parseCSV_returns [OF False ret]
    have r: "products r = ls_products (rows_state env obs t)" by simp
    show ?thesis unfolding r rows_state_def by (rule parse_rows_retained) simp
  qed
qed

theorem parseCSV_retention_witness:
  "(\<forall>cs. quiet_observer cs = None)
   \<and> products (projr (snd (parseCSV sample_env (Some quiet_observer) sample_csv))) \<noteq> []
   \<and> status (hd (products (projr (snd (parseCSV sample_env (Some quiet_observer) sample_csv)))))
       = js ''ACTIVE''
   \<and> amount (price (hd (products (projr (snd (parseCSV sample_env (Some quiet_observer)
                                                  sample_csv)))))) > 0"
proof -
  have quiet: "\<forall>f. Some quiet_observer = Some f \<longrightarrow> (\<forall>cs. f cs = None)"
    by (simp add: quiet_observer_def)
  from parseCSV_retention [of "Some quiet_observer" sample_env sample_csv] quiet obtain r where
    r: "snd (parseCSV sample_env (Some quiet_observer) sample_csv) = Inr r"
    and keep: "\<forall>p \<in> set (products r). status p = js ''ACTIVE'' \<and> amount (price p) > 0"
    by blast
  have ne: "products r \<noteq> []" using r by (auto simp add: sample_run)
  then have "hd (products r) \<in> set (products r)" by simp
  with keep have "status (hd (products r)) = js ''ACTIVE'' \<and> amount (price (hd (products r))) > 0"
    by blast
  with ne r show ?thesis by (simp add: quiet_observer_def)
qed

text \<open>
  C8, as the code has it: for an input with at least 2 non-blank lines and an observer whose
  calls all return, the calls are the intermediate ones followed by one final call that
  reports 100 with the final statistics; the percentages are non-decreasing over the whole
  sequence; and the intermediate calls are exactly those of the rows whose index is a
  multiple of 1000, each with the percentage of that index as the runtime computes it. An
  intermediate call may itself report 100. Of the runtime's rounding to doubles the
  statement uses that it is monotone and leaves 1 and 100 as they are.
\<close>

theorem parseCSV_progress:
  assumes "2 \<le> length (splitLines t)"
    and "\<forall>cs. f cs = None"
    and "\<forall>x y. x \<le> y \<longrightarrow> nearest_double env x \<le> nearest_double env y"
    and "nearest_double env 1 = 1"
    and "nearest_double env 100 = 100"
  shows "\<exists>inter r.
           parseCSV env (Some f) t = (inter @ [(100, stats r)], Inr r)
         \<and> sorted (map fst (fst (parseCSV env (Some f) t)))
         \<and> map (\<lambda>c. (fst c, totalRows (snd c))) inter
             = map (\<lambda>j. (percent_of env j (length (splitLines t) - 1), j))
                 (filter (\<lambda>j. j mod 1000 = 0) [1..<length (splitLines t)])"
  using parseCSV_calls_rows [OF assms(1,2), of env] parseCSV_calls_sorted [OF assms] by blast

theorem parseCSV_progress_witness:
  "2 \<le> length (splitLines (sample_rows 2001))
   \<and> (\<forall>cs. quiet_observer cs = None)
   \<and> nearest_double sample_env = (\<lambda>x. x)
   \<and> map fst (fst (parseCSV sample_env (Some quiet_observer) (sample_rows 2001))) = [50, 100, 100]"
proof -
  have h: "2 \<le> length (splitLines (sample_rows 2001))" by (simp add: sample_rows_lines)
  from parseCSV_progress [OF h quiet_observer_quiet sample_nearest_double] obtain inter r where
    calls: "parseCSV sample_env (Some quiet_observer) (sample_rows 2001)
              = (inter @ [(100, stats r)], Inr r)"
    and inter: "map (\<lambda>c. (fst c, totalRows (snd c))) inter
             = map (\<lambda>j. (percent_of sample_env j (length (splitLines (sample_rows 2001)) - 1), j))
                 (filter (\<lambda>j. j mod 1000 = 0) [1..<length (splitLines (sample_rows 2001))])"
    by blast
  have "map (\<lambda>c. (fst c, totalRows (snd c))) inter
          = [(percent_of sample_env 1000 2000, 1000), (percent_of sample_env 2000 2000, 2000)]"
    unfolding inter by (simp add: sample_rows_lines multiples_upto_2000)
  then have "map fst (map (\<lambda>c. (fst c, totalRows (snd c))) inter)
               = [percent_of sample_env 1000 2000, percent_of sample_env 2000 2000]"
    by simp
  then have "map fst inter = [50, 100]" by (simp add: comp_def sample_percents)
  moreover have "nearest_double sample_env = (\<lambda>x. x)" by (simp add: sample_env_def)
  ultimately show ?thesis using h calls quiet_observer_quiet by simp
qed

text \<open>
  C8 as stated fails: with a header and 1000 data rows the call of row 1000 reports 100 and
  so does the final call, so two calls report 100; and with a header, 2000 data rows and an
  observer that throws, the call of row 1000 is the only one, so no call reports 100.
\<close>

theorem parseCSV_progress_counterexample:
  "2 \<le> length (splitLines (sample_rows 1001))
   \<and> map fst (fst (parseCSV sample_env (Some quiet_observer) (sample_rows 1001))) = [100, 100]
   \<and> 2 \<le> length (splitLines (sample_rows 2001))
   \<and> map fst (fst (parseCSV sample_env (Some throwing_observer) (sample_rows 2001))) = [50]
   \<and> snd (parseCSV sample_env (Some throwing_observer) (sample_rows 2001)) = Inl TypeError"
proof -
  have h: "2 \<le> length (splitLines (sample_rows 1001))" by (simp add: sample_rows_lines)
  from parseCSV_calls_rows [OF h quiet_observer_quiet, of sample_env] obtain inter r where
    calls: "parseCSV sample_env (Some quiet_observer) (sample_rows 1001)
              = (inter @ [(100, stats r)], Inr r)"
    and inter: "map (\<lambda>c. (fst c, totalRows (snd c))) inter
             = map (\<lambda>j. (percent_of sample_env j (length (splitLines (sample_rows 1001)) - 1), j))
                 (filter (\<lambda>j. j mod 1000 = 0) [1..<length (splitLines (sample_rows 1001))])"
    by blast
  have "map (\<lambda>c. (fst c, totalRows (snd c))) inter = [(percent_of sample_env 1000 1000, 1000)]"
    unfolding inter by (simp add: sample_rows_lines multiples_upto_1000)
  then have "map fst (map (\<lambda>c. (fst c, totalRows (snd c))) inter) = [percent_of sample_env 1000 1000]"
    by simp
  then have "map fst inter = [100]" by (simp add: comp_def sample_percents)
  with calls have a: "map fst (fst (parseCSV sample_env (Some quiet_observer) (sample_rows 1001)))
                        = [100, 100]"
    by simp
  have k: "2 \<le> length (splitLines (sample_rows 2001))" by (simp add: sample_rows_lines)
  have throws: "\<forall>cs. throwing_observer cs = Some TypeError" by (simp add: throwing_observer_def)
  have rows: "filter (\<lambda>j. j mod 1000 = 0) [1..<length (splitLines (sample_rows 2001))] = 1000 # [2000]"
    by (simp add: sample_rows_lines multiples_upto_2000)
  from parseCSV_calls_thrown [OF k throws rows, of sample_env]
  have b: "map fst (fst (parseCSV sample_env (Some throwing_observer) (sample_rows 2001))) = [50]
         \<and> snd (parseCSV sample_env (Some throwing_observer) (sample_rows 2001)) = Inl TypeError"
    by (simp add: sample_rows_lines sample_percents)
  from h a k b show ?thesis by blast
qed

text \<open>
  C10: for every input text, the statistics returned by \<open>parseCSV\<close> satisfy:
  \<open>parsedProducts\<close> is the length of the returned list, \<open>parsedProducts + skippedRows\<close>
  is \<open>totalRows\<close>, and \<open>errors\<close> is at most \<open>skippedRows\<close>; and \<open>parseCSV\<close> does
  return statistics whenever no call of the observer throws.
\<close>

theorem parseCSV_statistics:
  "((\<forall>f. obs = Some f \<longrightarrow> (\<forall>cs. f cs = None)) \<longrightarrow> (\<exists>r. snd (parseCSV env obs t) = Inr r))
   \<and> (\<forall>r. snd (parseCSV env obs t) = Inr r \<longrightarrow>
          parsedProducts (stats r) = length (products r)
        \<and> parsedProducts (stats r) + skippedRows (stats r) = totalRows (stats r)
        \<and> errors (stats r) \<le> skippedRows (stats r))"
proof (intro conjI allI impI)
  assume "\<forall>f. obs = Some f \<longrightarrow> (\<forall>cs. f cs = None)"
  then show "\<exists>r. snd (parseCSV env obs t) = Inr r" by (rule parseCSV_quiet)
next
  fix r assume ret: "snd (parseCSV env obs t) = Inr r"
  have "parsedProducts (stats r) = length (products r)
        \<and> parsedProducts (stats r) + skippedRows (stats r) = totalRows (stats r)
        \<and> errors (stats r) \<le> skippedRows (stats r)"
  proof (cases "length (splitLines t) < 2")
    case True
    with ret show ?thesis by (auto simp add: parseCSV_short empty_result_def)
  next
    case False
    from parseCSV_returns [OF False ret]
    have none: "ls_raised (rows_state env obs t) = None"
      and r: "r = \<lparr> products = ls_products (rows_state env obs t),
                    stats = final_stats (length (splitLines t) - 1) (rows_state env obs t) \<rparr>"
      by blast+
    have cnt: "length (ls_products (rows_state env obs t)) + ls_skippedRows (rows_state env obs t)
                 = length (splitLines t) - 1"
      using parse_rows_count [OF none [unfolded rows_state_def]] unfolding rows_state_def by simp
    have err: "ls_errors (rows_state env obs t) \<le> ls_skippedRows (rows_state env obs t)"
      unfolding rows_state_def by (rule parse_rows_errors) simp
    show ?thesis unfolding r using cnt err by (simp add: final_stats_def)
  qed
  then show "parsedProducts (stats r) = length (products r)"
    and "parsedProducts (stats r) + skippedRows (stats r) = totalRows (stats r)"
    and "errors (stats r) \<le> skippedRows (stats r)"
    by blast+
qed

theorem parseCSV_statistics_witness:
  "(\<forall>cs. quiet_observer cs = None)
   \<and> parsedProducts (stats (projr (snd (parseCSV sample_env (Some quiet_observer) sample_csv)))) = 1
   \<and> skippedRows (stats (projr (snd (parseCSV sample_env (Some quiet_observer) sample_csv)))) = 1
   \<and> totalRows (stats (projr (snd (parseCSV sample_env (Some quiet_observer) sample_csv)))) = 2
   \<and> errors (stats (projr (snd (parseCSV sample_env (Some quiet_observer) sample_csv)))) = 0"
  using parseCSV_statistics [of "Some quiet_observer" sample_env sample_csv]
  by (simp add: sample_run quiet_observer_def)

section \<open>Properties of the search engine\<close>

subsection \<open>The string tests and the library's relations\<close>

lemma includes_str_sublist: "includes_str s t \<longleftrightarrow> sublist t s"
  by (induction s) (simp_all add: sublist_Cons_right)

lemma isSubsequence_loop_subseq: "isSubsequence_loop n h \<longleftrightarrow> subseq n h"
  by (induction n h rule: isSubsequence_loop.induct) simp_all

lemma isSubsequence_subseq: "isSubsequence n h \<longleftrightarrow> n \<noteq> [] \<and> subseq n h"
  by (simp add: isSubsequence_def isSubsequence_loop_subseq)

subsection \<open>Trimming and collapsing, read on the words of a text\<close>

lemma words_of_head: "cs \<noteq> [] \<Longrightarrow> \<not> is_space (hd cs) \<Longrightarrow> words_of cs \<noteq> []"
  by (cases cs) simp_all

lemma words_of_Nil_iff: "words_of s = [] \<longleftrightarrow> (\<forall>c \<in> set s. is_space c)"
  by (induction s) auto

lemma words_of_wf: "w \<in> set (words_of s) \<Longrightarrow> w \<noteq> [] \<and> (\<forall>c \<in> set w. \<not> is_space c)"
proof (induction s arbitrary: w)
  case Nil
  then show ?case by simp
next
  case (Cons c cs)
  show ?case
  proof (cases "is_space c")
    case True
    with Cons show ?thesis by simp
  next
    case False
    show ?thesis
    proof (cases "cs = [] \<or> is_space (hd cs)")
      case True
      with False Cons show ?thesis by auto
    next
      case nosp: False
      then have ne: "words_of cs \<noteq> []" by (simp add: words_of_head)
      from Cons.prems False nosp
      have "w = c # hd (words_of cs) \<or> w \<in> set (tl (words_of cs))" by simp
      then show ?thesis
      proof
        assume w: "w = c # hd (words_of cs)"
        from ne have "hd (words_of cs) \<in> set (words_of cs)" by simp
        from Cons.IH [OF this] w False show ?thesis by simp
      next
        assume "w \<in> set (tl (words_of cs))"
        with ne have "w \<in> set (words_of cs)" by (meson list.set_sel(2))
        then show ?thesis by (rule Cons.IH)
      qed
    qed
  qed
qed

lemma words_of_leading: "words_of (dropWhile is_space s) = words_of s"
  by (induction s) simp_all

lemma words_of_trailing: "\<forall>c \<in> set b. is_space c \<Longrightarrow> words_of (a @ b) = words_of a"
proof (induction a)
  case Nil
  then show ?case by (simp add: words_of_Nil_iff)
next
  case (Cons c cs)
  have hd: "cs @ b = [] \<or> is_space (hd (cs @ b)) \<longleftrightarrow> cs = [] \<or> is_space (hd cs)"
    using Cons.prems by (cases cs; cases b) simp_all
  show ?case using Cons hd by simp
qed

lemma words_of_trim: "words_of (trim s) = words_of s"
proof -
  define d where "d = dropWhile is_space s"
  have "rev d = takeWhile is_space (rev d) @ dropWhile is_space (rev d)" by simp
  then have "d = rev (dropWhile is_space (rev d)) @ rev (takeWhile is_space (rev d))"
    by (metis rev_append rev_rev_ident)
  moreover have "\<forall>c \<in> set (rev (takeWhile is_space (rev d))). is_space c"
    by (auto dest: set_takeWhileD)
  ultimately have "words_of d = words_of (rev (dropWhile is_space (rev d)))"
    using words_of_trailing by metis
  then show ?thesis unfolding trim_def d_def [symmetric] by (simp add: d_def words_of_leading)
qed

lemma trim_ends:
  assumes "trim s \<noteq> []"
  shows "\<not> is_space (hd (trim s))" and "\<not> is_space (last (trim s))"
proof -
  define d where "d = dropWhile is_space s"
  define e where "e = dropWhile is_space (rev d)"
  have t: "trim s = rev e" unfolding trim_def e_def d_def by simp
  with assms have ene: "e \<noteq> []" by simp
  then have "\<not> is_space (hd e)" unfolding e_def by (rule hd_dropWhile)
  then show "\<not> is_space (last (trim s))" unfolding t using ene by (simp add: last_rev)
  from ene have dne: "d \<noteq> []" unfolding e_def by auto
  then have hd: "\<not> is_space (hd d)" unfolding d_def by (rule hd_dropWhile)
  have "last e = last (rev d)" unfolding e_def using ene [unfolded e_def]
    by (metis takeWhile_dropWhile_id last_appendR)
  also have "\<dots> = hd d" using dne by (simp add: last_rev)
  finally have "hd (rev e) = hd d" using ene by (simp add: hd_rev)
  with hd show "\<not> is_space (hd (trim s))" unfolding t by simp
qed

lemma collapse_loop_flag:
  "s = [] \<or> \<not> is_space (hd s) \<Longrightarrow> collapse_loop s b = collapse_loop s True"
  by (cases s) auto

lemma collapse_loop_space:
  "s \<noteq> [] \<Longrightarrow> is_space (hd s) \<Longrightarrow> collapse_loop s False = blank # collapse_loop s True"
  by (cases s) auto

lemma unwords_Cons: "unwords (w # ws) = (if ws = [] then w else w @ blank # unwords ws)"
  by (cases ws) simp_all

lemma collapse_loop_words:
  "collapse_loop s True
     = unwords (words_of s) @ (if words_of s \<noteq> [] \<and> is_space (last s) then [blank] else [])"
proof (induction s)
  case Nil
  show ?case by simp
next
  case (Cons c cs)
  show ?case
  proof (cases "is_space c")
    case True
    have "words_of cs \<noteq> [] \<Longrightarrow> cs \<noteq> []" by auto
    then show ?thesis using True Cons by auto
  next
    case False
    show ?thesis
    proof (cases "cs = []")
      case True
      with False show ?thesis by simp
    next
      case ne: False
      show ?thesis
      proof (cases "is_space (hd cs)")
        case True
        have step: "collapse_loop (c # cs) True = c # blank # collapse_loop cs True"
          using False collapse_loop_space [OF ne True] by simp
        have w: "words_of (c # cs) = [c] # words_of cs" using False True by simp
        show ?thesis
        proof (cases "words_of cs = []")
          case wn: True
          then have "\<forall>x \<in> set cs. is_space x" by (simp add: words_of_Nil_iff)
          with ne have "is_space (last cs)" by simp
          with wn ne show ?thesis unfolding step w Cons.IH by simp
        next
          case wne: False
          with ne show ?thesis unfolding step w Cons.IH by (simp add: unwords_Cons)
        qed
      next
        case nosp: False
        have step: "collapse_loop (c # cs) True = c # collapse_loop cs True"
          using False collapse_loop_flag [of cs False] nosp by simp
        have wne: "words_of cs \<noteq> []" using ne nosp by (rule words_of_head)
        have w: "words_of (c # cs) = (c # hd (words_of cs)) # tl (words_of cs)"
          using False nosp ne by simp
        have u: "unwords ((c # hd (words_of cs)) # tl (words_of cs)) = c # unwords (words_of cs)"
          using wne by (cases "words_of cs") (simp_all add: unwords_Cons)
        show ?thesis unfolding step w u Cons.IH using wne ne by simp
      qed
    qed
  qed
qed

lemma unwords_ends:
  assumes "ws \<noteq> []" and "\<forall>w \<in> set ws. w \<noteq> [] \<and> (\<forall>c \<in> set w. \<not> is_space c)"
  shows "unwords ws \<noteq> []" and "\<not> is_space (hd (unwords ws))" and "\<not> is_space (last (unwords ws))"
proof -
  from assms show "unwords ws \<noteq> []" by (cases ws) (simp_all add: unwords_Cons)
  from assms show "\<not> is_space (hd (unwords ws))" by (cases ws) (auto simp add: unwords_Cons)
  from assms show "\<not> is_space (last (unwords ws))"
  proof (induction ws)
    case Nil
    then show ?case by simp
  next
    case (Cons w ws)
    show ?case
    proof (cases "ws = []")
      case True
      with Cons.prems show ?thesis by simp
    next
      case False
      with Cons have "\<not> is_space (last (unwords ws))" by simp
      moreover have "unwords ws \<noteq> []" using False Cons.prems by (cases ws) (simp_all add: unwords_Cons)
      ultimately show ?thesis using False by (simp add: unwords_Cons)
    qed
  qed
qed

lemma dropWhile_spaces: "\<forall>c \<in> set l. is_space c \<Longrightarrow> dropWhile is_space (l @ ys) = dropWhile is_space ys"
  by (induction l) simp_all

lemma trim_inner:
  assumes "u \<noteq> []" and "\<not> is_space (hd u)" and "\<not> is_space (last u)"
    and "\<forall>c \<in> set l. is_space c" and "\<forall>c \<in> set r. is_space c"
  shows "trim (l @ u @ r) = u"
proof -
  have "dropWhile is_space (u @ r) = u @ r" using assms(1,2) by (cases u) simp_all
  then have a: "dropWhile is_space (l @ u @ r) = u @ r"
    using dropWhile_spaces [OF assms(4)] by simp
  have "dropWhile is_space (rev u) = rev u"
    using assms(1,3) by (cases "rev u") (auto simp add: hd_rev)
  moreover have "\<forall>c \<in> set (rev r). is_space c" using assms(5) by simp
  ultimately have b: "dropWhile is_space (rev (u @ r)) = rev u"
    using dropWhile_spaces [of "rev r" "rev u"] by simp
  show ?thesis unfolding trim_def a b by simp
qed

lemma is_space_blank: "is_space blank"
  by (simp add: is_space_def blank_def)

text \<open>The two orders in which the engine trims and collapses give the words joined by blanks.\<close>

lemma collapse_trim_words: "collapse_ws (trim s) = unwords (words_of s)"
proof (cases "trim s = []")
  case True
  then have "words_of (trim s) = []" by simp
  then have "words_of s = []" by (simp add: words_of_trim)
  with True show ?thesis by (simp add: collapse_ws_def)
next
  case False
  from trim_ends [OF False] have h: "\<not> is_space (hd (trim s))" and l: "\<not> is_space (last (trim s))"
    by simp_all
  have "collapse_ws (trim s) = collapse_loop (trim s) True"
    unfolding collapse_ws_def using h by (intro collapse_loop_flag) simp
  also have "\<dots> = unwords (words_of (trim s))" using l by (simp add: collapse_loop_words)
  finally show ?thesis by (simp add: words_of_trim)
qed

lemma trim_collapse_words: "trim (collapse_ws s) = unwords (words_of s)"
proof (cases "words_of s = []")
  case True
  then have all: "\<forall>c \<in> set s. is_space c" by (simp add: words_of_Nil_iff)
  have "collapse_loop s True = []" using True by (simp add: collapse_loop_words)
  then have "collapse_ws s = [] \<or> collapse_ws s = [blank]"
    unfolding collapse_ws_def using collapse_loop_space [of s] all by (cases s) auto
  then have "trim (collapse_ws s) = []"
    using is_space_blank by (auto simp add: trim_def)
  with True show ?thesis by simp
next
  case False
  define u where "u = unwords (words_of s)"
  define r where "r = (if is_space (last s) then [blank] else [])"
  define l where "l = (if is_space (hd s) then [blank] else [])"
  from False have sne: "s \<noteq> []" by auto
  have wf: "\<forall>w \<in> set (words_of s). w \<noteq> [] \<and> (\<forall>c \<in> set w. \<not> is_space c)"
    using words_of_wf by blast
  from unwords_ends [OF False wf]
  have u: "u \<noteq> []" "\<not> is_space (hd u)" "\<not> is_space (last u)" unfolding u_def by simp_all
  have t: "collapse_loop s True = u @ r"
    using False by (simp add: collapse_loop_words u_def r_def)
  have "collapse_ws s = l @ u @ r"
  proof (cases "is_space (hd s)")
    case True
    from collapse_loop_space [OF sne True] t True show ?thesis
      by (simp add: collapse_ws_def l_def)
  next
    case nosp: False
    then have "collapse_loop s False = collapse_loop s True"
      by (intro collapse_loop_flag) simp
    with t nosp show ?thesis by (simp add: collapse_ws_def l_def)
  qed
  moreover have "\<forall>c \<in> set l. is_space c" "\<forall>c \<in> set r. is_space c"
    using is_space_blank by (simp_all add: l_def r_def)
  ultimately have "trim (collapse_ws s) = u" using trim_inner [OF u] by simp
  then show ?thesis by (simp add: u_def)
qed

subsection \<open>The engine's normal forms are the specification's\<close>

lemma normalize_str_spec:
  "normalize_str env field = field_normal_form env field"
  by (simp add: normalize_str_def field_normal_form_def spec_normalize_def collapse_trim_words
           split: option.splits)

lemma strip_tags_inside:
  "gt_sign \<in> set cs \<Longrightarrow>
   strip_tags_spec cs True = strip_tags_spec (tl (dropWhile (\<lambda>x. x \<noteq> gt_sign) cs)) False"
  by (induction cs) auto

lemma replace_tags_plain: "gt_sign \<notin> set cs \<Longrightarrow> replace_tags cs = cs"
  by (induction cs) auto

lemma strip_tags_plain: "gt_sign \<notin> set cs \<Longrightarrow> strip_tags_spec cs False = cs"
  by (induction cs) auto

lemma replace_tags_spec: "replace_tags s = strip_tags_spec s False"
proof (induction s rule: replace_tags.induct)
  case 1
  show ?case by simp
next
  case (2 c cs)
  show ?case
  proof (cases "c = lt_sign \<and> gt_sign \<in> set cs")
    case True
    with 2 show ?thesis by (simp add: strip_tags_inside)
  next
    case False
    with 2 show ?thesis by auto
  qed
qed

lemma stripHtml_spec: "stripHtml html = spec_stripHtml html"
  by (simp add: stripHtml_def spec_stripHtml_def trim_collapse_words replace_tags_spec)

subsection \<open>The loop of the field scorer\<close>

lemma upper_rung_code:
  "upper_rung token normalized =
     (if normalized = token then Exact
      else if startsWith normalized token then Prefix
      else if includes_str normalized ([blank] @ token @ [blank])
              \<or> startsWith normalized (token @ [blank])
              \<or> endsWith normalized ([blank] @ token) then Boundary
      else if includes_str normalized token then Substring
      else NoMatch)"
  by (simp add: upper_rung_def startsWith_def endsWith_def includes_str_sublist)

lemma scoreField_loop_sum:
  "scoreField_loop tokens (normalize_str env field)
      (if length (normalize_str env field) \<le> 120 then normalizeForFuzzy env field else []) weight acc
     = acc + ladder_score env tokens field weight"
proof (induction tokens arbitrary: acc)
  case Nil
  show ?case by (simp add: ladder_score_def)
next
  case (Cons t ts)
  define nf where "nf = normalize_str env field"
  have nff: "normalizeForFuzzy env field = strip_non_alnum nf"
    by (simp add: normalizeForFuzzy_def nf_def)
  have fuzzy: "(if length nf \<le> 120 then strip_non_alnum nf else []) \<noteq> []
        \<and> (if length t \<ge> 3 then strip_non_alnum t else []) \<noteq> []
        \<and> isSubsequence (if length t \<ge> 3 then strip_non_alnum t else [])
             (if length nf \<le> 120 then strip_non_alnum nf else [])
      \<longleftrightarrow> length t \<ge> 3 \<and> length nf \<le> 120 \<and> strip_non_alnum t \<noteq> []
           \<and> subseq (strip_non_alnum t) (strip_non_alnum nf)"
    by (auto simp add: isSubsequence_subseq)
  have sum: "ladder_score env (t # ts) field weight
               = rung_value (ladder_rung env t field) * weight + ladder_score env ts field weight"
    by (simp add: ladder_score_def)
  have rung: "ladder_rung env t field =
     (if upper_rung t nf \<noteq> NoMatch then upper_rung t nf
      else if length t \<ge> 3 \<and> length nf \<le> 120 \<and> strip_non_alnum t \<noteq> []
              \<and> subseq (strip_non_alnum t) (strip_non_alnum nf) then Fuzzy
      else NoMatch)"
    by (simp add: ladder_rung_def Let_def nf_def normalize_str_spec)
  show ?case
    unfolding sum scoreField_loop.simps Let_def nff nf_def [symmetric] fuzzy
      Cons.IH [unfolded nff nf_def [symmetric]] rung
    by (simp add: upper_rung_code)
qed

lemma scoreField_ladder:
  "scoreField env tokens field weight
     = (if field = None \<or> field = Some [] then 0 else ladder_score env tokens field weight)"
proof (cases "field = None \<or> field = Some [] \<or> length tokens = 0")
  case True
  then show ?thesis by (auto simp add: scoreField_def ladder_score_def)
next
  case False
  then show ?thesis
    using scoreField_loop_sum [of tokens env field weight 0]
    by (auto simp add: scoreField_def Let_def)
qed

lemma rung_value_nonneg: "0 \<le> rung_value r"
  by (cases r) simp_all

lemma ladder_score_nonneg: "0 \<le> weight \<Longrightarrow> 0 \<le> ladder_score env tokens field weight"
  unfolding ladder_score_def by (induction tokens) (simp_all add: rung_value_nonneg)

text \<open>Against an absent or empty field a token that is not empty is on no rung.\<close>

lemma ladder_rung_empty_field:
  assumes "field = None \<or> field = Some []" and "t \<noteq> []"
  shows "ladder_rung env t field = NoMatch"
proof -
  from assms(1) have nf: "field_normal_form env field = []"
    by (auto simp add: field_normal_form_def spec_normalize_def)
  have "upper_rung t [] = NoMatch" using assms(2) by (auto simp add: upper_rung_def)
  then show ?thesis using assms(2) by (auto simp add: ladder_rung_def nf strip_non_alnum_def)
qed

lemma ladder_score_empty_field:
  "field = None \<or> field = Some [] \<Longrightarrow> [] \<notin> set tokens \<Longrightarrow>
   ladder_score env tokens field weight = 0"
  unfolding ladder_score_def
  by (induction tokens) (auto simp add: ladder_rung_empty_field)

lemma tokenize_nonempty: "[] \<notin> set (tokenize env q)"
  by (simp add: tokenize_def)

lemma scoreField_tokens:
  "[] \<notin> set tokens \<Longrightarrow> scoreField env tokens field weight = ladder_score env tokens field weight"
  by (simp add: scoreField_ladder ladder_score_empty_field)

text \<open>A token that occurs in the normalized field is on one of the four upper rungs.\<close>

lemma upper_rung_substring: "sublist t nf \<Longrightarrow> 2 \<le> rung_value (upper_rung t nf)"
  by (simp add: upper_rung_def)

lemma ladder_rung_substring:
  "sublist t (field_normal_form env field) \<Longrightarrow> 2 \<le> rung_value (ladder_rung env t field)"
  using upper_rung_substring [of t "field_normal_form env field"]
  by (auto simp add: ladder_rung_def Let_def)

lemma sum_list_member_le:
  fixes f :: "'a \<Rightarrow> real"
  shows "\<forall>x \<in> set xs. 0 \<le> f x \<Longrightarrow> t \<in> set xs \<Longrightarrow> f t \<le> sum_list (map f xs)"
proof (induction xs)
  case Nil
  then show ?case by simp
next
  case (Cons x xs)
  have nn: "0 \<le> sum_list (map f xs)" using Cons.prems(1) by (intro sum_list_nonneg) auto
  show ?case
  proof (cases "t = x")
    case True
    with nn show ?thesis by simp
  next
    case False
    with Cons have "f t \<le> sum_list (map f xs)" by simp
    moreover have "0 \<le> f x" using Cons.prems(1) by simp
    ultimately show ?thesis by simp
  qed
qed

lemma ladder_score_substring:
  assumes "0 < weight" and "t \<in> set tokens" and "sublist t (field_normal_form env field)"
  shows "2 * weight \<le> ladder_score env tokens field weight"
proof -
  have "\<forall>x \<in> set tokens. 0 \<le> rung_value (ladder_rung env x field) * weight"
    using assms(1) by (simp add: rung_value_nonneg)
  from sum_list_member_le [OF this assms(2)]
  have "rung_value (ladder_rung env t field) * weight \<le> ladder_score env tokens field weight"
    unfolding ladder_score_def .
  moreover have "2 * weight \<le> rung_value (ladder_rung env t field) * weight"
    using ladder_rung_substring [OF assms(3)] assms(1) by simp
  ultimately show ?thesis by simp
qed

lemma scoreField_substring:
  assumes "0 < weight" and "t \<in> set tokens" and "t \<noteq> []"
    and "sublist t (normalize_str env (Some s))"
  shows "2 * weight \<le> scoreField env tokens (Some s) weight"
proof -
  have "s \<noteq> []" using assms(3,4) by (auto simp add: normalize_str_def)
  then have "scoreField env tokens (Some s) weight = ladder_score env tokens (Some s) weight"
    by (simp add: scoreField_ladder)
  with ladder_score_substring [OF assms(1,2), of env "Some s"] assms(4) show ?thesis
    by (simp add: normalize_str_spec)
qed

subsection \<open>Claims about scoring, matching and filtering\<close>

text \<open>
  C4, as the code has it. \<open>scoreField\<close> is internal to the engine: its token lists are those
  that the tokenizer yields, and its weights are 3, 2, 1 and 0.5. For every query, field
  and weight, \<open>scoreField\<close> on the tokens of the query returns the sum over the tokens of the
  factor of the first matching rung times the weight: 10 exact, 5 prefix, 4 space-boundary
  word, 2 substring, 1 alphanumeric subsequence for a token of length at least 3 that keeps
  at least one of \<open>a-z0-9\<close> and a normalized field of length at most 120, 0 no match. So
  the result is non-negative for a non-negative weight, and for a positive weight each rung
  scores strictly more than the next.
\<close>

theorem scoreField_ladder_sum:
  "scoreField env (tokenize env q) field weight
     = sum_list (map (\<lambda>t. rung_value (ladder_rung env t field) * weight) (tokenize env q))
   \<and> (0 \<le> weight \<longrightarrow> 0 \<le> scoreField env (tokenize env q) field weight)
   \<and> (0 < weight \<longrightarrow>
         rung_value Exact * weight > rung_value Prefix * weight
       \<and> rung_value Prefix * weight > rung_value Boundary * weight
       \<and> rung_value Boundary * weight > rung_value Substring * weight
       \<and> rung_value Substring * weight > rung_value Fuzzy * weight
       \<and> rung_value Fuzzy * weight > rung_value NoMatch * weight)"
proof (intro conjI impI)
  show "scoreField env (tokenize env q) field weight
     = sum_list (map (\<lambda>t. rung_value (ladder_rung env t field) * weight) (tokenize env q))"
    using scoreField_tokens [OF tokenize_nonempty] by (simp add: ladder_score_def)
next
  assume "0 \<le> weight"
  then show "0 \<le> scoreField env (tokenize env q) field weight"
    using scoreField_tokens [OF tokenize_nonempty] by (simp add: ladder_score_nonneg)
qed simp_all

theorem scoreField_ladder_sum_witness:
  "(0::real) < 3
   \<and> tokenize sample_env (js ''WHEY rot  wpn zzz ---'')
       = [js ''whey'', js ''rot'', js ''wpn'', js ''zzz'', js ''---'']
   \<and> scoreField sample_env (tokenize sample_env (js ''WHEY rot  wpn zzz ---''))
        (Some (js ''Whey Protein'')) 3 = 24
   \<and> 0 \<le> scoreField sample_env (tokenize sample_env (js ''WHEY rot  wpn zzz ---''))
        (Some (js ''Whey Protein'')) 3
   \<and> rung_value Fuzzy * (3::real) > rung_value NoMatch * 3"
proof -
  have t: "tokenize sample_env (js ''WHEY rot  wpn zzz ---'')
             = [js ''whey'', js ''rot'', js ''wpn'', js ''zzz'', js ''---'']"
    by code_simp
  have e: "scoreField sample_env [js ''whey'', js ''rot'', js ''wpn'', js ''zzz'', js ''---'']
             (Some (js ''Whey Protein'')) 3 = 24"
    by code_simp
  show ?thesis
    using scoreField_ladder_sum [of sample_env "js ''WHEY rot  wpn zzz ---''"
                                   "Some (js ''Whey Protein'')" 3] t e
    by simp
qed

text \<open>
  C4 as stated fails: the token \<open>---\<close> has length 3 and nothing of it is left when it is
  stripped to \<open>a-z0-9\<close>; the empty sequence is a subsequence of the stripped field
  \<open>abc\<close>, so the ladder as stated gives 1 times the weight, and \<open>scoreField\<close> gives 0.
\<close>

theorem scoreField_empty_fuzzy_counterexample:
  "tokenize sample_env (js ''---'') = [js ''---'']
   \<and> scoreField sample_env (tokenize sample_env (js ''---'')) (Some (js ''abc'')) 3 = 0
   \<and> ladder_rung_spec sample_env (js ''---'') (Some (js ''abc'')) = Fuzzy
   \<and> ladder_score_spec sample_env (tokenize sample_env (js ''---'')) (Some (js ''abc'')) 3 = 3"
proof -
  have t: "tokenize sample_env (js ''---'') = [js ''---'']" by code_simp
  have s: "scoreField sample_env [js ''---''] (Some (js ''abc'')) 3 = 0" by code_simp
  have n: "field_normal_form sample_env (Some (js ''abc'')) = js ''abc''" by code_simp
  have len: "length (js ''---'') = 3" "length (js ''abc'') = 3" by (simp_all add: js_def)
  have strip: "strip_non_alnum (js ''---'') = []" by code_simp
  have up: "upper_rung (js ''---'') (js ''abc'') = NoMatch"
    using upper_rung_code [of "js ''---''" "js ''abc''"] by code_simp
  have r: "ladder_rung_spec sample_env (js ''---'') (Some (js ''abc'')) = Fuzzy"
    by (simp add: ladder_rung_spec_def n up len strip)
  show ?thesis unfolding t using s r by (simp add: ladder_score_spec_def)
qed

text \<open>
  C6, as the code has it: \<open>applyFilters\<close> is the identity when the filters are absent, and,
  with an empty vendor set, the price interval from 0 to \<open>Infinity\<close> and \<open>inStock\<close> false,
  on every collection whose price amounts are not negative.
\<close>

theorem applyFilters_identity:
  "applyFilters ps None = ps
   \<and> ((\<forall>p \<in> set ps. 0 \<le> amount (price p)) \<longrightarrow>
        applyFilters ps (Some \<lparr> vendors = Some [],
                                priceRange = Some \<lparr> min_price = Num 0, max_price = PosInfinity \<rparr>,
                                inStock = Some False \<rparr>) = ps)"
  by (simp add: applyFilters_def)

theorem applyFilters_identity_witness:
  "applyFilters [sample_product (js ''1'') (js ''Whey'') (js ''Shop'') 40 (js ''2024-01-01'')] None
     = [sample_product (js ''1'') (js ''Whey'') (js ''Shop'') 40 (js ''2024-01-01'')]
   \<and> 0 \<le> amount (price (sample_product (js ''1'') (js ''Whey'') (js ''Shop'') 40 (js ''2024-01-01'')))
   \<and> applyFilters [sample_product (js ''1'') (js ''Whey'') (js ''Shop'') 40 (js ''2024-01-01'')]
        (Some \<lparr> vendors = Some [],
                priceRange = Some \<lparr> min_price = Num 0, max_price = PosInfinity \<rparr>,
                inStock = Some False \<rparr>)
     = [sample_product (js ''1'') (js ''Whey'') (js ''Shop'') 40 (js ''2024-01-01'')]"
proof -
  have h: "\<forall>p \<in> set [sample_product (js ''1'') (js ''Whey'') (js ''Shop'') 40 (js ''2024-01-01'')].
             0 \<le> amount (price p)"
    by (simp add: sample_product_def)
  from applyFilters_identity
         [of "[sample_product (js ''1'') (js ''Whey'') (js ''Shop'') 40 (js ''2024-01-01'')]"] h
  show ?thesis by simp
qed

text \<open>C6 as stated fails: a record with a negative price amount is dropped by the interval.\<close>

theorem applyFilters_negative_price_counterexample:
  "applyFilters [sample_product (js ''1'') (js ''Gift card'') (js ''Shop'') (- 1) (js ''2024-01-01'')]
     (Some \<lparr> vendors = Some [],
             priceRange = Some \<lparr> min_price = Num 0, max_price = PosInfinity \<rparr>,
             inStock = Some False \<rparr>) = []"
  by (simp add: applyFilters_def sample_product_def)

subsection \<open>The joined tags hold the words of every tag\<close>

lemma words_of_blank_append: "words_of (a @ blank # b) = words_of a @ words_of b"
proof (induction a)
  case Nil
  show ?case by (simp add: is_space_blank)
next
  case (Cons c cs)
  show ?case
  proof (cases "is_space c")
    case True
    with Cons show ?thesis by simp
  next
    case False
    have hd: "cs @ blank # b = [] \<or> is_space (hd (cs @ blank # b)) \<longleftrightarrow> cs = [] \<or> is_space (hd cs)"
      by (cases cs) (simp_all add: is_space_blank)
    show ?thesis
    proof (cases "cs = [] \<or> is_space (hd cs)")
      case True
      with False hd Cons show ?thesis by simp
    next
      case nosp: False
      then have "words_of cs \<noteq> []" by (simp add: words_of_head)
      with False hd nosp Cons show ?thesis by simp
    qed
  qed
qed

lemma words_of_join_space: "words_of (join_space ts) = concat (map words_of ts)"
proof (induction ts rule: join_space.induct)
  case 1
  show ?case by simp
next
  case (2 t)
  show ?case by simp
next
  case (3 t v ts)
  then show ?case using words_of_blank_append [of t "join_space (v # ts)"] by simp
qed

lemma unwords_append:
  "unwords (a @ b) = (if a = [] then unwords b else if b = [] then unwords a
                      else unwords a @ blank # unwords b)"
proof (induction a)
  case Nil
  show ?case by simp
next
  case (Cons w ws)
  show ?case
  proof (cases "ws = []")
    case True
    then show ?thesis by (simp add: unwords_Cons)
  next
    case False
    with Cons show ?thesis by (simp add: unwords_Cons)
  qed
qed

lemma sublist_unwords: "sublist (unwords b) (unwords (a @ b @ c))"
proof -
  have "\<exists>l r. unwords (a @ b @ c) = l @ unwords b @ r"
  proof (cases "b = []")
    case True
    then show ?thesis by (simp add: exI [of _ "[]"])
  next
    case bne: False
    have bc: "\<exists>r. unwords (b @ c) = unwords b @ r"
      using bne by (simp add: unwords_append)
    then obtain r where r: "unwords (b @ c) = unwords b @ r" by blast
    show ?thesis
    proof (cases "a = []")
      case True
      with r show ?thesis by (simp add: exI [of _ "[]"])
    next
      case False
      then have "unwords (a @ b @ c) = (unwords a @ [blank]) @ unwords b @ r"
        using bne r by (simp add: unwords_append)
      then show ?thesis by blast
    qed
  qed
  then show ?thesis unfolding sublist_def by blast
qed

lemma join_space_Nil: "join_space ts = [] \<Longrightarrow> t \<in> set ts \<Longrightarrow> t = []"
  by (induction ts rule: join_space.induct) auto

lemma normalize_tag_in_join:
  assumes "lower_joins env ts" and "tag \<in> set ts" and "tag \<noteq> []"
  shows "sublist (normalize_str env (Some tag)) (normalize_str env (Some (join_space ts)))"
proof -
  from assms(2) obtain pre post where split: "ts = pre @ tag # post"
    by (meson split_list)
  have jne: "join_space ts \<noteq> []" using join_space_Nil [OF _ assms(2)] assms(3) by blast
  have "words_of (toLowerCase env (join_space ts)) = concat (map words_of (map (toLowerCase env) ts))"
    using assms(1) by (simp add: lower_joins_def words_of_join_space)
  also have "\<dots> = concat (map words_of (map (toLowerCase env) pre))
                    @ words_of (toLowerCase env tag)
                    @ concat (map words_of (map (toLowerCase env) post))"
    unfolding split by simp
  finally have "sublist (unwords (words_of (toLowerCase env tag)))
                  (unwords (words_of (toLowerCase env (join_space ts))))"
    by (simp only: sublist_unwords)
  then show ?thesis
    using assms(3) jne by (simp add: normalize_str_def collapse_trim_words)
qed

subsection \<open>A matched field has scored\<close>

lemma getMatches_member:
  "name \<in> set (getMatches env p tokens) \<longleftrightarrow>
     (name = js ''title'' \<and> (\<exists>t \<in> set tokens. sublist t (normalize_str env (Some (title p)))))
   \<or> (name = js ''vendor'' \<and> (\<exists>t \<in> set tokens. sublist t (normalize_str env (Some (vendor p)))))
   \<or> (name = js ''description''
        \<and> (\<exists>t \<in> set tokens. sublist t (normalize_str env (Some (stripHtml (description_or_body p))))))
   \<or> (name = js ''tags''
        \<and> (\<exists>t \<in> set tokens. \<exists>tag \<in> set (tags p). sublist t (normalize_str env (Some tag))))"
  by (auto simp add: getMatches_def list_ex_iff includes_str_sublist)

lemma field_names_distinct:
  "js ''title'' \<noteq> js ''vendor''" "js ''title'' \<noteq> js ''description''" "js ''title'' \<noteq> js ''tags''"
  "js ''vendor'' \<noteq> js ''description''" "js ''vendor'' \<noteq> js ''tags''"
  "js ''description'' \<noteq> js ''tags''"
  "js ''vendor'' \<noteq> js ''title''" "js ''description'' \<noteq> js ''title''" "js ''tags'' \<noteq> js ''title''"
  "js ''description'' \<noteq> js ''vendor''" "js ''tags'' \<noteq> js ''vendor''"
  "js ''tags'' \<noteq> js ''description''"
  by (simp_all add: js_def)

lemma matched_field_scores:
  assumes "[] \<notin> set tokens" and "lower_joins env (tags p)"
    and "name \<in> set (getMatches env p tokens)"
  shows "0 < field_score env p tokens name"
proof -
  from assms(3) [unfolded getMatches_member]
  consider (title) t where "name = js ''title''" "t \<in> set tokens"
        "sublist t (normalize_str env (Some (title p)))"
    | (vendor) t where "name = js ''vendor''" "t \<in> set tokens"
        "sublist t (normalize_str env (Some (vendor p)))"
    | (description) t where "name = js ''description''" "t \<in> set tokens"
        "sublist t (normalize_str env (Some (stripHtml (description_or_body p))))"
    | (tags) t tag where "name = js ''tags''" "t \<in> set tokens" "tag \<in> set (tags p)"
        "sublist t (normalize_str env (Some tag))"
    by blast
  then show ?thesis
  proof cases
    case title
    from title(2) assms(1) have "t \<noteq> []" by auto
    from scoreField_substring [OF _ title(2) this title(3), of 3] title(1)
    show ?thesis by (simp add: field_score_def)
  next
    case vendor
    from vendor(2) assms(1) have "t \<noteq> []" by auto
    from scoreField_substring [OF _ vendor(2) this vendor(3), of 2] vendor(1)
    show ?thesis by (simp add: field_score_def field_names_distinct)
  next
    case description
    from description(2) assms(1) have "t \<noteq> []" by auto
    from scoreField_substring [OF _ description(2) this description(3), of 1] description(1)
    show ?thesis by (simp add: field_score_def field_names_distinct)
  next
    case tags
    from tags(2) assms(1) have tne: "t \<noteq> []" by auto
    with tags(4) have "tag \<noteq> []" by (auto simp add: normalize_str_def)
    from normalize_tag_in_join [OF assms(2) tags(3) this] tags(4)
    have "sublist t (normalize_str env (Some (join_space (Product.tags p))))"
      using sublist_order.order_trans by blast
    from scoreField_substring [OF _ tags(2) tne this, of "1 / 2"] tags(1)
    show ?thesis by (simp add: field_score_def field_names_distinct)
  qed
qed

lemma calculateScore_fields:
  "calculateScore env p tokens
     = (if tokens = [] then 0
        else sum_list (map (field_score env p tokens)
                         [js ''title'', js ''vendor'', js ''description'', js ''tags'']))"
  by (simp add: calculateScore_def field_score_def field_names_distinct)

lemma getMatches_filter:
  "getMatches env p tokens
     = filter (field_matched env p tokens) [js ''title'', js ''vendor'', js ''description'', js ''tags'']"
proof -
  have d: "description_or_body p = (if description p = [] then bodyHtml p else description p)"
    by (simp add: description_or_body_def)
  have n: "normalize_str env (Some s) = spec_normalize env s" for s
    by (simp add: normalize_str_spec field_normal_form_def)
  show ?thesis
    by (simp add: getMatches_def field_matched_def field_texts_def list_ex_iff includes_str_sublist
          field_names_distinct n d stripHtml_spec)
qed

text \<open>
  C9, as the code has it: for every record and token list, \<open>getMatches\<close> returns exactly
  the names among \<open>title\<close>, \<open>vendor\<close>, \<open>description\<close>, \<open>tags\<close>, in this order, for which
  some token is a substring of the field's normalized text (the description falling back to
  the HTML body, tags stripped; one text per tag). The test does not look at the score, which
  is the sum of what the four fields contribute; but when no token is empty, as is the case of
  the tokens of a query, every field it reports has contributed a score above 0.
\<close>

theorem getMatches_fields:
  "getMatches env p tokens
     = filter (field_matched env p tokens) [js ''title'', js ''vendor'', js ''description'', js ''tags'']
   \<and> calculateScore env p tokens
       = (if tokens = [] then 0
          else sum_list (map (field_score env p tokens)
                           [js ''title'', js ''vendor'', js ''description'', js ''tags'']))
   \<and> ([] \<notin> set tokens \<and> lower_joins env (tags p) \<longrightarrow>
        (\<forall>name \<in> set (getMatches env p tokens). 0 < field_score env p tokens name))"
  using getMatches_filter calculateScore_fields matched_field_scores by blast

theorem getMatches_fields_witness:
  "[] \<notin> set (tokenize sample_env (js ''Release  night''))
   \<and> lower_joins sample_env (tags marked_up_product)
   \<and> getMatches sample_env marked_up_product (tokenize sample_env (js ''Release  night''))
       = [js ''description'', js ''tags'']
   \<and> 0 < field_score sample_env marked_up_product (tokenize sample_env (js ''Release  night''))
           (js ''description'')
   \<and> 0 < field_score sample_env marked_up_product (tokenize sample_env (js ''Release  night''))
           (js ''tags'')"
proof -
  define toks where "toks = tokenize sample_env (js ''Release  night'')"
  have t: "toks = [js ''release'', js ''night'']"
    unfolding toks_def by code_simp
  have ne: "[] \<notin> set toks" unfolding toks_def by (rule tokenize_nonempty)
  have lj: "lower_joins sample_env (tags marked_up_product)" by code_simp
  have g: "getMatches sample_env marked_up_product [js ''release'', js ''night'']
             = [js ''description'', js ''tags'']"
    by code_simp
  have m: "getMatches sample_env marked_up_product toks = [js ''description'', js ''tags'']"
    unfolding t by (rule g)
  have "\<forall>name \<in> set (getMatches sample_env marked_up_product toks).
          0 < field_score sample_env marked_up_product toks name"
    by (rule mp [OF conjunct2 [OF conjunct2 [OF getMatches_fields]]]) (intro conjI ne lj)
  then have "0 < field_score sample_env marked_up_product toks (js ''description'')
           \<and> 0 < field_score sample_env marked_up_product toks (js ''tags'')"
    unfolding m by simp
  with ne lj m show ?thesis unfolding toks_def by blast
qed

text \<open>
  C9 as stated fails in its last clause: for the tokens of a query no field is reported as
  matched with a contribution of 0 to the score. (The runtime lower-cases the joined tags tag
  by tag, which is what \<open>lower_joins\<close> says of the tags of the record.)
\<close>

theorem getMatches_zero_score_counterexample:
  "\<not> (\<exists>env (p :: Product) q name.
         lower_joins env (tags p)
       \<and> name \<in> set (getMatches env p (tokenize env q))
       \<and> field_score env p (tokenize env q) name \<le> 0)"
proof
  assume "\<exists>env (p :: Product) q name.
         lower_joins env (tags p)
       \<and> name \<in> set (getMatches env p (tokenize env q))
       \<and> field_score env p (tokenize env q) name \<le> 0"
  then obtain env and p :: Product and q name where
    lj: "lower_joins env (tags p)"
    and m: "name \<in> set (getMatches env p (tokenize env q))"
    and z: "field_score env p (tokenize env q) name \<le> 0"
    by blast
  from matched_field_scores [OF tokenize_nonempty lj m] z show False by simp
qed

subsection \<open>The runtime's sort: a stable sorted permutation\<close>

lemma mset_js_insert [simp]: "mset (js_insert cmp x ys) = add_mset x (mset ys)"
  by (induction ys) simp_all

lemma set_js_insert [simp]: "set (js_insert cmp x ys) = insert x (set ys)"
  by (induction ys) auto

lemma mset_js_sort [simp]: "mset (js_sort cmp xs) = mset xs"
  unfolding js_sort_def by (induction xs) simp_all

lemma set_js_sort [simp]: "set (js_sort cmp xs) = set xs"
  using mset_js_sort [of cmp xs] by (metis set_mset_mset)

lemma length_js_sort [simp]: "length (js_sort cmp xs) = length xs"
  using mset_js_sort [of cmp xs] by (metis size_mset)

lemma sorted_js_insert:
  assumes total: "\<And>a b. a \<in> S \<Longrightarrow> b \<in> S \<Longrightarrow> sort_le cmp a b \<or> sort_le cmp b a"
    and trans: "\<And>a b c. a \<in> S \<Longrightarrow> b \<in> S \<Longrightarrow> c \<in> S \<Longrightarrow>
                  sort_le cmp a b \<Longrightarrow> sort_le cmp b c \<Longrightarrow> sort_le cmp a c"
    and "x \<in> S" and "set ys \<subseteq> S" and "sorted_wrt (sort_le cmp) ys"
  shows "sorted_wrt (sort_le cmp) (js_insert cmp x ys)"
  using assms(3-5)
proof (induction ys)
  case Nil
  then show ?case by simp
next
  case (Cons y ys)
  show ?case
  proof (cases "sort_le cmp x y")
    case True
    have "\<forall>z \<in> set ys. sort_le cmp x z"
    proof
      fix z assume z: "z \<in> set ys"
      with Cons.prems have "sort_le cmp y z" by simp
      with True show "sort_le cmp x z"
        using trans [of x y z] Cons.prems z by auto
    qed
    with True Cons.prems show ?thesis by simp
  next
    case False
    then have yx: "sort_le cmp y x" using total [of x y] Cons.prems by auto
    have "sorted_wrt (sort_le cmp) (js_insert cmp x ys)"
      using Cons.IH Cons.prems by simp
    moreover have "\<forall>z \<in> set (js_insert cmp x ys). sort_le cmp y z"
    proof
      fix z assume "z \<in> set (js_insert cmp x ys)"
      then have "z = x \<or> z \<in> set ys" by simp
      with yx Cons.prems show "sort_le cmp y z" by auto
    qed
    ultimately show ?thesis using False by simp
  qed
qed

lemma sorted_js_sort:
  assumes total: "\<And>a b. a \<in> S \<Longrightarrow> b \<in> S \<Longrightarrow> sort_le cmp a b \<or> sort_le cmp b a"
    and trans: "\<And>a b c. a \<in> S \<Longrightarrow> b \<in> S \<Longrightarrow> c \<in> S \<Longrightarrow>
                  sort_le cmp a b \<Longrightarrow> sort_le cmp b c \<Longrightarrow> sort_le cmp a c"
    and "set xs \<subseteq> S"
  shows "sorted_wrt (sort_le cmp) (js_sort cmp xs)"
  using assms(3)
proof (induction xs)
  case Nil
  then show ?case by (simp add: js_sort_def)
next
  case (Cons x xs)
  have "sorted_wrt (sort_le cmp) (js_insert cmp x (js_sort cmp xs))"
  proof (rule sorted_js_insert [where S = S])
    show "x \<in> S" using Cons.prems by simp
    show "set (js_sort cmp xs) \<subseteq> S" using Cons.prems by simp
    show "sorted_wrt (sort_le cmp) (js_sort cmp xs)" using Cons.IH Cons.prems by simp
  qed (erule (1) total, erule (4) trans)
  then show ?case by (simp add: js_sort_def)
qed

lemma stable_js_insert:
  assumes trans: "\<And>a b c. a \<in> S \<Longrightarrow> b \<in> S \<Longrightarrow> c \<in> S \<Longrightarrow>
                  sort_le cmp a b \<Longrightarrow> sort_le cmp b c \<Longrightarrow> sort_le cmp a c"
    and "x \<in> S" and "z \<in> S" and "set ys \<subseteq> S"
  shows "filter (\<lambda>y. sort_le cmp z y \<and> sort_le cmp y z) (js_insert cmp x ys)
           = filter (\<lambda>y. sort_le cmp z y \<and> sort_le cmp y z) (x # ys)"
  using assms(4)
proof (induction ys)
  case Nil
  then show ?case by simp
next
  case (Cons y ys)
  show ?case
  proof (cases "sort_le cmp x y")
    case True
    then show ?thesis by simp
  next
    case False
    have "\<not> ((sort_le cmp z x \<and> sort_le cmp x z) \<and> (sort_le cmp z y \<and> sort_le cmp y z))"
    proof
      assume "(sort_le cmp z x \<and> sort_le cmp x z) \<and> (sort_le cmp z y \<and> sort_le cmp y z)"
      then have "sort_le cmp x y" using trans [of x z y] assms(2,3) Cons.prems by auto
      with False show False by simp
    qed
    then show ?thesis using False Cons.IH Cons.prems by auto
  qed
qed

lemma stable_js_sort:
  assumes trans: "\<And>a b c. a \<in> S \<Longrightarrow> b \<in> S \<Longrightarrow> c \<in> S \<Longrightarrow>
                  sort_le cmp a b \<Longrightarrow> sort_le cmp b c \<Longrightarrow> sort_le cmp a c"
    and "z \<in> S" and "set xs \<subseteq> S"
  shows "filter (\<lambda>y. sort_le cmp z y \<and> sort_le cmp y z) (js_sort cmp xs)
           = filter (\<lambda>y. sort_le cmp z y \<and> sort_le cmp y z) xs"
  using assms(3)
proof (induction xs)
  case Nil
  then show ?case by (simp add: js_sort_def)
next
  case (Cons x xs)
  have "filter (\<lambda>y. sort_le cmp z y \<and> sort_le cmp y z) (js_insert cmp x (js_sort cmp xs))
          = filter (\<lambda>y. sort_le cmp z y \<and> sort_le cmp y z) (x # js_sort cmp xs)"
  proof (rule stable_js_insert [where S = S])
    show "x \<in> S" using Cons.prems by simp
    show "z \<in> S" by (rule assms(2))
    show "set (js_sort cmp xs) \<subseteq> S" using Cons.prems by simp
  qed (erule (4) trans)
  then show ?case using Cons.IH Cons.prems by (simp add: js_sort_def)
qed

lemma sort_by_vendor_asc:
  assumes total: "\<And>a b. localeCompare env a b \<le> 0 \<or> localeCompare env b a \<le> 0"
    and trans: "\<And>a b c. localeCompare env a b \<le> 0 \<Longrightarrow> localeCompare env b c \<le> 0
                  \<Longrightarrow> localeCompare env a c \<le> 0"
  shows "sorted_wrt (\<lambda>a b. localeCompare env (vendor a) (vendor b) \<le> 0)
           (js_sort (cmp_vendor_asc env) rs)"
    and "filter (\<lambda>r. localeCompare env v (vendor r) \<le> 0 \<and> localeCompare env (vendor r) v \<le> 0)
           (js_sort (cmp_vendor_asc env) rs)
         = filter (\<lambda>r. localeCompare env v (vendor r) \<le> 0 \<and> localeCompare env (vendor r) v \<le> 0) rs"
proof -
  have le: "sort_le (cmp_vendor_asc env) a b \<longleftrightarrow> localeCompare env (vendor a) (vendor b) \<le> 0"
    for a b :: "'a Product_scheme"
    by (simp add: sort_le_def cmp_vendor_asc_def)
  have "sorted_wrt (sort_le (cmp_vendor_asc env)) (js_sort (cmp_vendor_asc env) rs)"
    by (rule sorted_js_sort [where S = UNIV]) (use total trans in \<open>auto simp add: le\<close>)
  then show "sorted_wrt (\<lambda>a b. localeCompare env (vendor a) (vendor b) \<le> 0)
           (js_sort (cmp_vendor_asc env) rs)"
    by (simp add: le [abs_def])
  obtain z :: "'a Product_scheme" where z: "vendor z = v"
    by (metis Product.select_convs(4))
  have "filter (\<lambda>y. sort_le (cmp_vendor_asc env) z y \<and> sort_le (cmp_vendor_asc env) y z)
          (js_sort (cmp_vendor_asc env) rs)
        = filter (\<lambda>y. sort_le (cmp_vendor_asc env) z y \<and> sort_le (cmp_vendor_asc env) y z) rs"
    by (rule stable_js_sort [where S = UNIV]) (use trans in \<open>auto simp add: le\<close>)
  then show "filter (\<lambda>r. localeCompare env v (vendor r) \<le> 0 \<and> localeCompare env (vendor r) v \<le> 0)
           (js_sort (cmp_vendor_asc env) rs)
         = filter (\<lambda>r. localeCompare env v (vendor r) \<le> 0 \<and> localeCompare env (vendor r) v \<le> 0) rs"
    by (simp add: le z)
qed

subsection \<open>The sort names\<close>

lemma sortResults_vendor_asc:
  "sortResults env rs (Some (js ''vendor-asc'')) = js_sort (cmp_vendor_asc env) rs"
  by (simp add: sortResults_def js_def)

lemma mset_sortResults [simp]: "mset (sortResults env rs s) = mset rs"
  by (simp add: sortResults_def Let_def)

lemma set_sortResults [simp]: "set (sortResults env rs s) = set rs"
  using mset_sortResults [of env rs s] by (metis set_mset_mset)

subsection \<open>The sample comparison is a total preorder\<close>

lemma compare_codes_total: "compare_codes a b \<le> 0 \<or> compare_codes b a \<le> 0"
proof (induction a b rule: compare_codes.induct)
  case (4 x xs y ys)
  consider "x < y" | "y < x" | "x = y" by linarith
  then show ?case
  proof cases
    case 1 then show ?thesis by simp
  next
    case 2 then show ?thesis by simp
  next
    case 3 then show ?thesis using 4 by simp
  qed
qed simp_all

lemma compare_codes_trans:
  "compare_codes a b \<le> 0 \<Longrightarrow> compare_codes b c \<le> 0 \<Longrightarrow> compare_codes a c \<le> 0"
proof (induction a b arbitrary: c rule: compare_codes.induct)
  case 1
  then show ?case by simp
next
  case (2 y ys)
  then show ?case by (cases c) simp_all
next
  case (3 x xs)
  then show ?case by simp
next
  case (4 x xs y ys)
  show ?case
  proof (cases c)
    case Nil
    with "4.prems" show ?thesis by simp
  next
    case (Cons z zs)
    from "4.prems"(1) have xy: "x \<le> y"
      by (simp split: if_splits)
    from "4.prems"(2) Cons have yz: "y \<le> z"
      by (simp split: if_splits)
    show ?thesis
    proof (cases "x < z")
      case True
      then show ?thesis using Cons by simp
    next
      case False
      with xy yz have eq: "x = y" "y = z" by linarith+
      from "4.prems"(1) eq have ab: "compare_codes xs ys \<le> 0" by simp
      from "4.prems"(2) Cons eq have bc: "compare_codes ys zs \<le> 0" by simp
      from eq have "\<not> x < y" "\<not> y < x" by simp_all
      from "4.IH" [OF this ab bc] eq Cons show ?thesis by simp
    qed
  qed
qed

lemma sample_total:
  "\<forall>a b. localeCompare sample_env a b \<le> 0 \<or> localeCompare sample_env b a \<le> 0"
  by (simp add: sample_env_def compare_codes_total)

lemma sample_trans:
  "\<forall>a b c. localeCompare sample_env a b \<le> 0 \<longrightarrow> localeCompare sample_env b c \<le> 0
     \<longrightarrow> localeCompare sample_env a c \<le> 0"
  using compare_codes_trans by (auto simp add: sample_env_def)

subsection \<open>Results, limits and the scoring loop\<close>

lemma truncate_mk_result [simp]: "Product.truncate (mk_result p s m) = p"
  by (simp add: mk_result_def Product.truncate_def Product.extend_def)

lemma relevanceScore_mk_result [simp]: "relevanceScore (mk_result p s m) = s"
  by (simp add: mk_result_def Product.extend_def SearchResult.fields_def)

lemma matchedFields_mk_result [simp]: "matchedFields (mk_result p s m) = m"
  by (simp add: mk_result_def Product.extend_def SearchResult.fields_def)

lemma vendor_mk_result [simp]: "vendor (mk_result p s m) = vendor p"
  by (simp add: mk_result_def Product.extend_def)

lemma set_apply_limit: "set (apply_limit xs l) \<subseteq> set xs"
  by (auto simp add: apply_limit_def split: option.splits dest: in_set_takeD)

lemma score_loop_filter:
  "score_loop env ps tokens acc
     = acc @ map (\<lambda>p. mk_result p (calculateScore env p tokens) (getMatches env p tokens))
               (filter (\<lambda>p. MINIMUM_SCORE \<le> calculateScore env p tokens) ps)"
  by (induction ps arbitrary: acc) (simp_all add: Let_def)

lemma trim_Nil: "trim s \<noteq> [] \<Longrightarrow> s \<noteq> []"
  by (auto simp add: trim_def)

lemma searchProducts_scored:
  assumes "trim (query options) \<noteq> []" and "tokenize env (query options) \<noteq> []"
  shows "\<exists>scored. scored = map (\<lambda>p. mk_result p (calculateScore env p (tokenize env (query options)))
                                      (getMatches env p (tokenize env (query options))))
                           (filter (\<lambda>p. MINIMUM_SCORE \<le> calculateScore env p (tokenize env (query options)))
                              (applyFilters ps (filters options)))
         \<and> searchProducts env ps options
             = apply_limit (if no_sort (sortBy options) then js_sort cmp_relevance scored
                            else sortResults env (js_sort cmp_relevance scored) (sortBy options))
                 (limit options)"
  using assms trim_Nil [OF assms(1)]
  by (simp add: searchProducts_def Let_def score_loop_filter)

lemma limited_subset:
  "res = apply_limit ordered l \<Longrightarrow> mset ordered = mset xs \<Longrightarrow> set res \<subseteq> set xs"
  using set_apply_limit [of ordered l] by (metis set_mset_mset)

lemma unlimited_mset:
  "res = apply_limit ordered None \<Longrightarrow> mset ordered = mset xs \<Longrightarrow> mset res = mset xs"
  by (simp add: apply_limit_def)

lemma mset_ordered:
  "mset (if c then js_sort cmp_relevance xs else sortResults env (js_sort cmp_relevance xs) s) = mset xs"
  by simp

lemma mset_truncate_mk:
  "mset (map Product.truncate (map (\<lambda>p. mk_result p (f p) (g p)) xs)) = mset xs"
  by (induction xs) simp_all

lemma searchProducts_blank:
  assumes "query options = [] \<or> trim (query options) = []" and "no_sort (sortBy options)"
  shows "searchProducts env ps options
           = apply_limit (sortResults env (map (\<lambda>p. mk_result p 0 []) (applyFilters ps (filters options)))
                            (Some (js ''vendor-asc'')))
               (limit options)"
  using assms by (auto simp add: searchProducts_def Let_def)

lemma sample_blank_search:
  "map vendor (apply_limit (sortResults sample_env
                  (map (\<lambda>p. mk_result p 0 []) (applyFilters sample_products None))
                  (Some (js ''vendor-asc''))) None)
     = [js ''Alpha Foods'', js ''Zeta Labs'']"
  by code_simp

lemma sample_query_search:
  "map product_id (searchProducts sample_env sample_products
                     \<lparr> query = js ''whey'', filters = None, sortBy = None, limit = None \<rparr>)
     = [js ''1'']"
  by code_simp

lemma sample_query_tokens: "tokenize sample_env (js ''whey'') = [js ''whey'']"
  by code_simp

lemma sample_query_trim: "trim (js ''whey'') \<noteq> []"
  by code_simp

lemma blank_query_trim: "trim [160, 8195] = []"
  by code_simp

subsection \<open>Claims about sorting and searching\<close>

text \<open>
  C2, as the code has it: for every collection and filters, a search whose query is empty or
  only white space and whose options carry no sort criterion returns the filtered records,
  each with score 0 and no matched field, in the \<open>vendor-asc\<close> order (ascending by the
  runtime's comparison of vendor names, taken to be a total preorder), cut by \<open>limit\<close> when
  one is given.
\<close>

theorem searchProducts_default_order:
  assumes "\<forall>a b. localeCompare env a b \<le> 0 \<or> localeCompare env b a \<le> 0"
    and "\<forall>a b c. localeCompare env a b \<le> 0 \<longrightarrow> localeCompare env b c \<le> 0
                  \<longrightarrow> localeCompare env a c \<le> 0"
    and "query options = [] \<or> trim (query options) = []"
    and "no_sort (sortBy options)"
  shows "searchProducts env ps options
           = apply_limit (sortResults env (map (\<lambda>p. mk_result p 0 []) (applyFilters ps (filters options)))
                            (Some (js ''vendor-asc'')))
               (limit options)
       \<and> mset (sortResults env (map (\<lambda>p. mk_result p 0 []) (applyFilters ps (filters options)))
                 (Some (js ''vendor-asc'')))
           = mset (map (\<lambda>p. mk_result p 0 []) (applyFilters ps (filters options)))
       \<and> sorted_wrt (\<lambda>a b. localeCompare env (vendor a) (vendor b) \<le> 0)
           (sortResults env (map (\<lambda>p. mk_result p 0 []) (applyFilters ps (filters options)))
              (Some (js ''vendor-asc'')))"
proof (intro conjI)
  show "searchProducts env ps options
           = apply_limit (sortResults env (map (\<lambda>p. mk_result p 0 []) (applyFilters ps (filters options)))
                            (Some (js ''vendor-asc'')))
               (limit options)"
    using assms(3,4) by (rule searchProducts_blank)
  show "mset (sortResults env (map (\<lambda>p. mk_result p 0 []) (applyFilters ps (filters options)))
                 (Some (js ''vendor-asc'')))
           = mset (map (\<lambda>p. mk_result p 0 []) (applyFilters ps (filters options)))"
    by (rule mset_sortResults)
  from assms(1) have total: "\<And>a b. localeCompare env a b \<le> 0 \<or> localeCompare env b a \<le> 0"
    by blast
  from assms(2) have trans: "\<And>a b c. localeCompare env a b \<le> 0 \<Longrightarrow> localeCompare env b c \<le> 0
                  \<Longrightarrow> localeCompare env a c \<le> 0"
    by blast
  show "sorted_wrt (\<lambda>a b. localeCompare env (vendor a) (vendor b) \<le> 0)
           (sortResults env (map (\<lambda>p. mk_result p 0 []) (applyFilters ps (filters options)))
              (Some (js ''vendor-asc'')))"
    unfolding sortResults_vendor_asc by (rule sort_by_vendor_asc(1) [OF total trans])
qed

theorem searchProducts_default_order_witness:
  "trim [160, 8195] = []
   \<and> no_sort None
   \<and> map vendor (searchProducts sample_env sample_products
                    \<lparr> query = [160, 8195], filters = None, sortBy = None, limit = None \<rparr>)
       = [js ''Alpha Foods'', js ''Zeta Labs'']"
proof -
  have blank: "query \<lparr> query = [160, 8195], filters = None, sortBy = None, limit = None \<rparr> = []
               \<or> trim (query \<lparr> query = [160, 8195], filters = None, sortBy = None, limit = None \<rparr>) = []"
    by (simp add: blank_query_trim)
  have nos: "no_sort (sortBy \<lparr> query = [160, 8195], filters = None, sortBy = None, limit = None \<rparr>)"
    by (simp add: no_sort_def)
  from searchProducts_default_order [OF sample_total sample_trans blank nos, of sample_products]
  have "searchProducts sample_env sample_products
          \<lparr> query = [160, 8195], filters = None, sortBy = None, limit = None \<rparr>
        = apply_limit (sortResults sample_env
                  (map (\<lambda>p. mk_result p 0 []) (applyFilters sample_products None))
                  (Some (js ''vendor-asc''))) None"
    by simp
  then show ?thesis using sample_blank_search by (simp add: blank_query_trim no_sort_def)
qed

text \<open>
  C2 as stated fails: with no query and no sort criterion the older record of the vendor
  that sorts first comes before the newer one, so the order is not newest first.
\<close>

theorem searchProducts_default_order_counterexample:
  "map product_id (searchProducts sample_env sample_products
                     \<lparr> query = [], filters = None, sortBy = None, limit = None \<rparr>)
     = [js ''2'', js ''1'']
   \<and> map createdAt (searchProducts sample_env sample_products
                     \<lparr> query = [], filters = None, sortBy = None, limit = None \<rparr>)
       = [js ''2024-01-01'', js ''2025-01-01'']
   \<and> Date_getTime sample_env (js ''2024-01-01'') = Some 1704067200000
   \<and> Date_getTime sample_env (js ''2025-01-01'') = Some 1735689600000"
  by code_simp

text \<open>
  C5, as the code has it: in a search whose query is not blank and has at least one token,
  every returned result is a filtered record whose relevance score is its aggregate score
  and is at least the minimum 0.1; and when no limit is given, the returned results are
  exactly the filtered records whose aggregate score is at least 0.1, each as often as it
  occurs.
\<close>

theorem searchProducts_threshold:
  assumes "trim (query options) \<noteq> []" and "tokenize env (query options) \<noteq> []"
  shows "(\<forall>r \<in> set (searchProducts env ps options).
            MINIMUM_SCORE \<le> relevanceScore r
          \<and> relevanceScore r = calculateScore env (Product.truncate r) (tokenize env (query options))
          \<and> Product.truncate r \<in> set (applyFilters ps (filters options)))
       \<and> (limit options = None \<longrightarrow>
            mset (map Product.truncate (searchProducts env ps options))
              = mset (filter (\<lambda>p. MINIMUM_SCORE \<le> calculateScore env p (tokenize env (query options)))
                        (applyFilters ps (filters options))))
       \<and> MINIMUM_SCORE = 1 / 10"
proof -
  define toks where "toks = tokenize env (query options)"
  define keep where "keep = filter (\<lambda>p. MINIMUM_SCORE \<le> calculateScore env p toks)
                              (applyFilters ps (filters options))"
  define scored where
    "scored = map (\<lambda>p. mk_result p (calculateScore env p toks) (getMatches env p toks)) keep"
  define ordered where "ordered = (if no_sort (sortBy options) then js_sort cmp_relevance scored
                  else sortResults env (js_sort cmp_relevance scored) (sortBy options))"
  from searchProducts_scored [OF assms, of ps]
  have run: "searchProducts env ps options = apply_limit ordered (limit options)"
    unfolding ordered_def scored_def keep_def toks_def by blast
  have ms: "mset ordered = mset scored" unfolding ordered_def by (rule mset_ordered)
  have sub: "set (searchProducts env ps options) \<subseteq> set scored"
    using run ms by (rule limited_subset)
  have a: "\<forall>r \<in> set (searchProducts env ps options).
            MINIMUM_SCORE \<le> relevanceScore r
          \<and> relevanceScore r = calculateScore env (Product.truncate r) toks
          \<and> Product.truncate r \<in> set (applyFilters ps (filters options))"
  proof
    fix r assume "r \<in> set (searchProducts env ps options)"
    with sub have "r \<in> set scored" by blast
    then obtain p where p: "p \<in> set keep"
      and r: "r = mk_result p (calculateScore env p toks) (getMatches env p toks)"
      unfolding scored_def by auto
    from p have "MINIMUM_SCORE \<le> calculateScore env p toks"
      and "p \<in> set (applyFilters ps (filters options))"
      unfolding keep_def by simp_all
    with r show "MINIMUM_SCORE \<le> relevanceScore r
          \<and> relevanceScore r = calculateScore env (Product.truncate r) toks
          \<and> Product.truncate r \<in> set (applyFilters ps (filters options))"
      by simp
  qed
  have b: "limit options = None \<longrightarrow>
            mset (map Product.truncate (searchProducts env ps options)) = mset keep"
  proof
    assume "limit options = None"
    with run have "searchProducts env ps options = apply_limit ordered None" by simp
    then have "mset (searchProducts env ps options) = mset scored"
      using ms by (rule unlimited_mset)
    then have "mset (map Product.truncate (searchProducts env ps options))
                 = mset (map Product.truncate scored)"
      by (metis mset_map)
    also have "\<dots> = mset keep" unfolding scored_def by (rule mset_truncate_mk)
    finally show "mset (map Product.truncate (searchProducts env ps options)) = mset keep" .
  qed
  have c: "MINIMUM_SCORE = 1 / 10" by (simp add: MINIMUM_SCORE_def)
  from a b c show ?thesis unfolding keep_def toks_def by blast
qed

theorem searchProducts_threshold_witness:
  "trim (js ''whey'') \<noteq> []
   \<and> tokenize sample_env (js ''whey'') \<noteq> []
   \<and> map product_id (searchProducts sample_env sample_products
                        \<lparr> query = js ''whey'', filters = None, sortBy = None, limit = None \<rparr>)
       = [js ''1'']
   \<and> MINIMUM_SCORE \<le> relevanceScore (hd (searchProducts sample_env sample_products
                        \<lparr> query = js ''whey'', filters = None, sortBy = None, limit = None \<rparr>))"
proof -
  let ?opts = "\<lparr> query = js ''whey'', filters = None, sortBy = None, limit = None \<rparr>"
  have tr: "trim (query ?opts) \<noteq> []" by (simp add: sample_query_trim)
  have toks: "tokenize sample_env (query ?opts) \<noteq> []" by (simp add: sample_query_tokens)
  have "searchProducts sample_env sample_products ?opts \<noteq> []"
    using sample_query_search by auto
  then have "hd (searchProducts sample_env sample_products ?opts)
               \<in> set (searchProducts sample_env sample_products ?opts)" by simp
  with searchProducts_threshold [OF tr toks, of sample_products]
  have "MINIMUM_SCORE \<le> relevanceScore (hd (searchProducts sample_env sample_products ?opts))"
    by blast
  then show ?thesis using sample_query_search tr toks by simp
qed

text \<open>
  C5 as stated fails: with a limit of 1 a filtered record with score 6 is not returned.
\<close>

theorem searchProducts_limit_counterexample:
  "trim (js ''e'') \<noteq> []
   \<and> tokenize sample_env (js ''e'') = [js ''e'']
   \<and> sample_product (js ''2'') (js ''Casein'') (js ''Alpha Foods'') 20 (js ''2024-01-01'')
       \<in> set (applyFilters sample_products None)
   \<and> calculateScore sample_env
        (sample_product (js ''2'') (js ''Casein'') (js ''Alpha Foods'') 20 (js ''2024-01-01''))
        [js ''e''] = 6
   \<and> MINIMUM_SCORE \<le> 6
   \<and> map product_id (searchProducts sample_env sample_products
                        \<lparr> query = js ''e'', filters = None, sortBy = None, limit = Some 1 \<rparr>)
       = [js ''1'']"
  by code_simp

text \<open>
  C7, where the code goes wrong: a record without a creation date, as the parser leaves it
  when the column is missing, has no timestamp; the comparator of \<open>recent-desc\<close> returns
  \<open>NaN\<close> against it, which the sort reads as equal, and a record of 2024 stays in front of
  one of 2025 across it. The output of the exported search under \<open>recent-desc\<close> is then
  not ordered by creation timestamp descending.
\<close>

theorem sortResults_invalid_date:
  "map createdAt (sortResults sample_env (map (\<lambda>p. mk_result p 0 []) undated_products)
                    (Some (js ''recent-desc'')))
     = [js ''2024-01-01'', [], js ''2025-01-01'']
   \<and> map createdAt (searchProducts sample_env undated_products
                      \<lparr> query = [], filters = None, sortBy = Some (js ''recent-desc''),
                        limit = None \<rparr>)
       = [js ''2024-01-01'', [], js ''2025-01-01'']
   \<and> map (\<lambda>p. Date_getTime sample_env (createdAt p)) undated_products
       = [Some 1704067200000, None, Some 1735689600000]"
  by code_simp

end
